theory Spec2Isabelle
  imports Complex_Main "HOL-Library.AList" "HOL-Library.Multiset"
begin

section \<open>The DNS stub resolver of dns/resolver.py\<close>

text \<open>
  A shallow embedding of the stub resolver: the exception \<open>NXDOMAIN\<close> and its merge,
  the construction of an \<open>Answer\<close>, the two caches, the per-lookup state machine
  \<open>_Resolution\<close> and the driver loop of \<open>Resolver.resolve\<close>. Python exceptions are
  values of the type \<open>error\<close>; a function that may raise returns \<open>error + 'a\<close>.
  Mutated objects are passed in and returned. The wall clock, the transport and the
  random shuffle are the environment.
\<close>

subsection \<open>Names, messages and requests (the collaborators of the resolver)\<close>

text \<open>
  Modelled from the spec: the module \<open>dns.name\<close> is not among the sources. A domain
  name is "a sequence of labels with an absolute/relative flag"; the sequence carries the
  flag, as \<open>Name.labels\<close> does: a name is absolute when its last label is the empty
  (root) label. So \<open>len(qname)\<close> and \<open>len(qname.labels)\<close> are \<open>length\<close>. Names are
  taken in canonical (case-folded) form, so that \<open>==\<close> on names, on which \<open>in\<close> and
  the dictionaries rely, is equality.
\<close>

type_synonym label = string
type_synonym name = "label list"

definition root :: name where
  "root = [[]]"

definition empty_name :: name where
  "empty_name = []"

definition is_absolute :: "name \<Rightarrow> bool" where
  "is_absolute n \<longleftrightarrow> n \<noteq> [] \<and> last n = []"

text \<open>
  Modelled from the spec: record types, classes and response codes are "small integer
  enumerations" of the modules \<open>dns.rdatatype\<close>, \<open>dns.rdataclass\<close> and \<open>dns.rcode\<close>,
  which are not among the sources; the numbers are those of RFC 1035 and RFC 2136.
\<close>

type_synonym rdatatype = nat
type_synonym rdataclass = nat
type_synonym rcode_t = nat

definition A :: rdatatype where "A = 1"
definition CNAME :: rdatatype where "CNAME = 5"
definition SOA :: rdatatype where "SOA = 6"
definition IN :: rdataclass where "IN = 1"
definition NOERROR :: rcode_t where "NOERROR = 0"
definition SERVFAIL :: rcode_t where "SERVFAIL = 2"
definition NXDOMAIN_rcode :: rcode_t where "NXDOMAIN_rcode = 3"
definition YXDOMAIN_rcode :: rcode_t where "YXDOMAIN_rcode = 6"

text \<open>
  Modelled from the spec: a received response "exposes \<open>rcode()\<close>, \<open>answer\<close> and
  \<open>authority\<close> sections, and \<open>find_rrset(section, owner, class, type)\<close>", which gives
  the record set or raises not-found (\<open>KeyError\<close>). The module \<open>dns.message\<close> is not
  among the sources. Of a record only what the resolver reads is kept: the target of a
  CNAME, the \<open>minimum\<close> field of a SOA.
\<close>

datatype rdata = CNAME_rdata (target: name) | SOA_rdata (minimum: int) | Other_rdata string

record rrset =
  rr_name :: name
  rr_rdclass :: rdataclass
  rr_rdtype :: rdatatype
  ttl :: int
  rdatas :: "rdata list"

record message =
  rcode :: rcode_t
  answer :: "rrset list"
  authority :: "rrset list"

text \<open>
  Modelled from the spec: \<open>make_query(name, type, class)\<close> "returns a buildable request
  with methods \<open>use_tsig\<close>, \<open>use_edns\<close>, and a settable \<open>flags\<close>". The request records
  what the resolver put into it; \<open>rq_flags = None\<close> stands for the flags that
  \<open>make_query\<close> chose.
\<close>

record request =
  rq_qname :: name
  rq_rdtype :: rdatatype
  rq_rdclass :: rdataclass
  rq_tsig :: "((name \<times> string) list option \<times> name \<times> name) option"
  rq_edns :: "int \<times> int \<times> int"
  rq_flags :: "int option"

subsection \<open>Exceptions\<close>

text \<open>
  An \<open>NXDOMAIN\<close> value is its \<open>kwargs\<close>: empty for \<open>NXDOMAIN()\<close>, else the two
  entries \<open>qnames\<close> and \<open>responses\<close> that \<open>_check_kwargs\<close> returns.
\<close>

datatype nxdomain = NXDOMAIN (kwargs: "(name list \<times> (name \<rightharpoonup> message)) option")

text \<open>
  The exceptions. \<open>FormError\<close> is \<open>dns.exception.FormError\<close> (a wire-format error),
  \<open>Truncated\<close> is \<open>dns.message.Truncated\<close>, and \<open>OtherError\<close> is whatever else a
  transport raises (a timeout of one attempt, a socket error). \<open>NoNameservers\<close> carries
  the request and the \<open>errors\<close> log, whose entries are the tuples
  \<open>(nameserver, tcp_attempt, port, error, response)\<close>; the error of an entry is an
  exception or, for a response with a bad rcode, the rcode that \<open>dns.rcode.to_text\<close>
  would print.
\<close>

datatype error =
    KeyError
  | ValueError
  | IndexError
  | AttributeError
  | AssertionError
  | UnboundLocalError
  | NoParent
  | AbsoluteConcatenation
  | FormError
  | EOFError
  | NotImplementedError
  | Truncated
  | OtherError string
  | NoAnswer message
  | NXDOMAIN_raised nxdomain
  | YXDOMAIN
  | NoNameservers "request option"
      "(string option \<times> bool \<times> int \<times> (error + rcode_t) \<times> message option) list"
  | Timeout real
  | NoMetaqueries

type_synonym err_entry = "string option \<times> bool \<times> int \<times> (error + rcode_t) \<times> message option"

text \<open>
  Modelled from the spec: \<open>parent()\<close> "may fail at root"; \<open>concatenate(suffix)\<close>
  appends the labels of the suffix and refuses to extend an absolute name.
\<close>

definition parent :: "name \<Rightarrow> error + name" where
  "parent n = (if n = root \<or> n = empty_name then Inl NoParent else Inr (tl n))"

definition concatenate :: "name \<Rightarrow> name \<Rightarrow> error + name" where
  "concatenate n other =
     (if is_absolute n \<and> length other > 0 then Inl AbsoluteConcatenation
      else Inr (n @ other))"

fun find_rrset :: "rrset list \<Rightarrow> name \<Rightarrow> rdataclass \<Rightarrow> rdatatype \<Rightarrow> error + rrset" where
  "find_rrset [] n c t = Inl KeyError"
| "find_rrset (rs # section) n c t =
     (if rr_name rs = n \<and> rr_rdclass rs = c \<and> rr_rdtype rs = t then Inr rs
      else find_rrset section n c t)"

subsection \<open>NXDOMAIN\<close>

text \<open>
  \<open>NXDOMAIN._check_kwargs\<close>; the arguments are a list and a dictionary already, so the
  two \<open>isinstance\<close> tests pass. \<open>responses = None\<close> is the default argument.
\<close>

definition check_kwargs :: "name list \<Rightarrow> (name \<rightharpoonup> message) option
    \<Rightarrow> error + (name list \<times> (name \<rightharpoonup> message))" where
  "check_kwargs qnames responses =
     (if length qnames = 0 then Inl AttributeError
      else Inr (qnames, (case responses of None \<Rightarrow> Map.empty | Some r \<Rightarrow> r)))"

text \<open>
  The constructor call \<open>NXDOMAIN(qnames=..., responses=...)\<close>: the base class
  \<open>DNSException\<close> stores what \<open>_check_kwargs\<close> returns, and an exception raised
  there leaves the constructor.
\<close>

definition NXDOMAIN_init :: "name list \<Rightarrow> (name \<rightharpoonup> message) \<Rightarrow> error + nxdomain" where
  "NXDOMAIN_init qnames responses =
     (case check_kwargs qnames (Some responses) of
        Inl e \<Rightarrow> Inl e
      | Inr kw \<Rightarrow> Inr (NXDOMAIN (Some kw)))"

definition nx_qnames :: "nxdomain \<Rightarrow> error + name list" where
  "nx_qnames e = (case kwargs e of None \<Rightarrow> Inl KeyError | Some (qs, rs) \<Rightarrow> Inr qs)"

definition nx_responses :: "nxdomain \<Rightarrow> error + (name \<rightharpoonup> message)" where
  "nx_responses e = (case kwargs e of None \<Rightarrow> Inl KeyError | Some (qs, rs) \<Rightarrow> Inr rs)"

definition nx_response :: "nxdomain \<Rightarrow> name \<Rightarrow> error + message" where
  "nx_response e qname =
     (case kwargs e of
        None \<Rightarrow> Inl KeyError
      | Some (qs, rs) \<Rightarrow> (case rs qname of None \<Rightarrow> Inl KeyError | Some m \<Rightarrow> Inr m))"

text \<open>
  The loop of \<open>NXDOMAIN.__add__\<close> over the qnames of the right operand, on the pair
  \<open>(qnames0, responses0)\<close>.
\<close>

fun add_loop :: "name list \<Rightarrow> (name \<rightharpoonup> message) \<Rightarrow> name list \<Rightarrow> (name \<rightharpoonup> message)
    \<Rightarrow> name list \<times> (name \<rightharpoonup> message)" where
  "add_loop [] responses1 qnames0 responses0 = (qnames0, responses0)"
| "add_loop (qname1 # rest) responses1 qnames0 responses0 =
     (let qnames0' = (if qname1 \<notin> set qnames0 then qnames0 @ [qname1] else qnames0);
          responses0' = (case responses1 qname1 of
                           Some m \<Rightarrow> responses0(qname1 \<mapsto> m)
                         | None \<Rightarrow> responses0)
      in add_loop rest responses1 qnames0' responses0')"

definition nx_add :: "nxdomain \<Rightarrow> nxdomain \<Rightarrow> error + nxdomain" where
  "nx_add self e_nx =
     (let qnames0 = (case kwargs self of None \<Rightarrow> [] | Some (qs, rs) \<Rightarrow> qs);
          responses0 = (case kwargs self of None \<Rightarrow> Map.empty | Some (qs, rs) \<Rightarrow> rs);
          responses1 = (case kwargs e_nx of None \<Rightarrow> Map.empty | Some (qs, rs) \<Rightarrow> rs);
          qnames1 = (case kwargs e_nx of None \<Rightarrow> [] | Some (qs, rs) \<Rightarrow> qs);
          (qnames0', responses0') = add_loop qnames1 responses1 qnames0 responses0
      in NXDOMAIN_init qnames0' responses0')"

subsection \<open>The wall clock\<close>

text \<open>
  \<open>time.time()\<close> is an effect: the clock is the sequence of the readings still to come,
  and a call takes the first one.
\<close>

type_synonym clock = "nat \<Rightarrow> real"

definition time_time :: "clock \<Rightarrow> real \<times> clock" where
  "time_time clk = (clk 0, (\<lambda>n. clk (Suc n)))"

subsection \<open>Answer\<close>

record Answer =
  ans_qname :: name
  ans_rdtype :: rdatatype
  ans_rdclass :: rdataclass
  ans_response :: message
  ans_nameserver :: "string option"
  ans_port :: "int option"
  canonical_name :: name
  rrset :: "rrset option"
  expiration :: real

text \<open>\<open>if min_ttl == -1 or rrset.ttl < min_ttl: min_ttl = rrset.ttl\<close>\<close>

definition fold_ttl :: "int \<Rightarrow> int \<Rightarrow> int" where
  "fold_ttl min_ttl t = (if min_ttl = - 1 \<or> t < min_ttl then t else min_ttl)"

text \<open>
  The loop \<open>for count in range(0, 15)\<close> of \<open>Answer.__init__\<close>, with the number of
  rounds left as first argument; the result is \<open>(qname, min_ttl, rrset)\<close> as the loop
  leaves them. A round that finds nothing and does not raise changes nothing and goes on
  to the next \<open>count\<close>.
\<close>

fun chase :: "nat \<Rightarrow> message \<Rightarrow> rdataclass \<Rightarrow> rdatatype \<Rightarrow> bool \<Rightarrow> name \<Rightarrow> int
    \<Rightarrow> error + (name \<times> int \<times> rrset option)" where
  "chase 0 resp rdc rdt raise_on_no_answer qn min_ttl = Inr (qn, min_ttl, None)"
| "chase (Suc n) resp rdc rdt raise_on_no_answer qn min_ttl =
     (case find_rrset (answer resp) qn rdc rdt of
        Inr rs \<Rightarrow> Inr (qn, fold_ttl min_ttl (ttl rs), Some rs)
      | Inl KeyError \<Rightarrow>
          (if rdt \<noteq> CNAME then
             (case find_rrset (answer resp) qn rdc CNAME of
                Inr crrset \<Rightarrow>
                  (case rdatas crrset of
                     [] \<Rightarrow> chase n resp rdc rdt raise_on_no_answer qn (fold_ttl min_ttl (ttl crrset))
                   | CNAME_rdata t # _ \<Rightarrow>
                       chase n resp rdc rdt raise_on_no_answer t (fold_ttl min_ttl (ttl crrset))
                   | _ # _ \<Rightarrow> Inl AttributeError)
              | Inl KeyError \<Rightarrow>
                  (if raise_on_no_answer then Inl (NoAnswer resp)
                   else if raise_on_no_answer then Inl (NoAnswer resp)
                   else chase n resp rdc rdt raise_on_no_answer qn min_ttl)
              | Inl e \<Rightarrow> Inl e)
           else if raise_on_no_answer then Inl (NoAnswer resp)
           else chase n resp rdc rdt raise_on_no_answer qn min_ttl)
      | Inl e \<Rightarrow> Inl e)"

text \<open>
  The loop \<open>while 1\<close> that looks for the SOA of the negative answer, climbing with
  \<open>parent()\<close>; the result is \<open>min_ttl\<close>.
\<close>

function soa_walk :: "message \<Rightarrow> rdataclass \<Rightarrow> name \<Rightarrow> int \<Rightarrow> error + int" where
  "soa_walk resp rdc qn min_ttl =
     (case find_rrset (authority resp) qn rdc SOA of
        Inr srrset \<Rightarrow>
          (case rdatas srrset of
             [] \<Rightarrow> Inl IndexError
           | SOA_rdata m # _ \<Rightarrow>
               (if m < fold_ttl min_ttl (ttl srrset) then Inr m
                else Inr (fold_ttl min_ttl (ttl srrset)))
           | _ # _ \<Rightarrow> Inl AttributeError)
      | Inl KeyError \<Rightarrow>
          (case parent qn of
             Inr p \<Rightarrow> soa_walk resp rdc p min_ttl
           | Inl NoParent \<Rightarrow> Inr min_ttl
           | Inl e \<Rightarrow> Inl e)
      | Inl e \<Rightarrow> Inl e)"
  by pat_completeness auto
termination
  by (relation "measure (\<lambda>(resp, rdc, qn, min_ttl). length qn)")
    (auto simp: parent_def empty_name_def split: if_splits)

declare soa_walk.simps [simp del]

definition Answer_init :: "name \<Rightarrow> rdatatype \<Rightarrow> rdataclass \<Rightarrow> message \<Rightarrow> bool
    \<Rightarrow> string option \<Rightarrow> int option \<Rightarrow> clock \<Rightarrow> error + (Answer \<times> clock)" where
  "Answer_init qn rdt rdc resp raise_on_no_answer ns prt clk =
     (case chase 15 resp rdc rdt raise_on_no_answer qn (- 1) of
        Inl e \<Rightarrow> Inl e
      | Inr (qn', min_ttl, rs) \<Rightarrow>
          (if rs = None \<and> raise_on_no_answer then Inl (NoAnswer resp)
           else
             (case (if rs = None then soa_walk resp rdc qn' min_ttl else Inr min_ttl) of
                Inl e \<Rightarrow> Inl e
              | Inr min_ttl' \<Rightarrow>
                  (let (now, clk') = time_time clk
                   in Inr (\<lparr>ans_qname = qn, ans_rdtype = rdt, ans_rdclass = rdc,
                            ans_response = resp, ans_nameserver = ns, ans_port = prt,
                            canonical_name = qn', rrset = rs,
                            expiration = now + real_of_int min_ttl'\<rparr>, clk')))))"

subsection \<open>Dictionaries\<close>

text \<open>
  A dictionary is an association list with distinct keys, in insertion order:
  \<open>d.get(k)\<close> is \<open>map_of d k\<close>, \<open>d[k] = v\<close> is \<open>AList.update k v d\<close>, \<open>len(d)\<close> is
  \<open>length d\<close>, and \<open>del d[k]\<close> raises \<open>KeyError\<close> when the key is missing.
\<close>

type_synonym cache_key = "name \<times> rdatatype \<times> rdataclass"

definition dict_del :: "('k \<times> 'v) list \<Rightarrow> 'k \<Rightarrow> error + ('k \<times> 'v) list" where
  "dict_del d k = (if map_of d k = None then Inl KeyError else Inr (AList.delete k d))"

fun del_keys :: "'k list \<Rightarrow> ('k \<times> 'v) list \<Rightarrow> error + ('k \<times> 'v) list" where
  "del_keys [] d = Inr d"
| "del_keys (k # ks) d = (case dict_del d k of Inl e \<Rightarrow> Inl e | Inr d' \<Rightarrow> del_keys ks d')"

subsection \<open>The simple cache\<close>

record Cache =
  data :: "(cache_key \<times> Answer) list"
  cleaning_interval :: real
  next_cleaning :: real

definition Cache_init :: "real \<Rightarrow> clock \<Rightarrow> Cache \<times> clock" where
  "Cache_init interval clk =
     (let (now, clk') = time_time clk
      in (\<lparr>data = [], cleaning_interval = interval, next_cleaning = now + interval\<rparr>, clk'))"

definition maybe_clean :: "Cache \<Rightarrow> clock \<Rightarrow> error + (Cache \<times> clock)" where
  "maybe_clean c clk =
     (let (now, clk1) = time_time clk
      in if next_cleaning c \<le> now then
           (let keys_to_delete = map fst (filter (\<lambda>(k, v). expiration v \<le> now) (data c))
            in case del_keys keys_to_delete (data c) of
                 Inl e \<Rightarrow> Inl e
               | Inr d \<Rightarrow>
                   (let (now2, clk2) = time_time clk1
                    in Inr (c\<lparr>data := d, next_cleaning := now2 + cleaning_interval c\<rparr>, clk2)))
         else Inr (c, clk1))"

definition Cache_get :: "Cache \<Rightarrow> cache_key \<Rightarrow> clock \<Rightarrow> error + (Answer option \<times> Cache \<times> clock)" where
  "Cache_get c k clk =
     (case maybe_clean c clk of
        Inl e \<Rightarrow> Inl e
      | Inr (c1, clk1) \<Rightarrow>
          (case map_of (data c1) k of
             None \<Rightarrow> Inr (None, c1, clk1)
           | Some v \<Rightarrow>
               (let (now, clk2) = time_time clk1
                in if expiration v \<le> now then Inr (None, c1, clk2)
                   else Inr (Some v, c1, clk2))))"

definition Cache_put :: "Cache \<Rightarrow> cache_key \<Rightarrow> Answer \<Rightarrow> clock \<Rightarrow> error + (Cache \<times> clock)" where
  "Cache_put c k v clk =
     (case maybe_clean c clk of
        Inl e \<Rightarrow> Inl e
      | Inr (c1, clk1) \<Rightarrow> Inr (c1\<lparr>data := AList.update k v (data c1)\<rparr>, clk1))"

definition Cache_flush :: "Cache \<Rightarrow> cache_key option \<Rightarrow> clock \<Rightarrow> error + (Cache \<times> clock)" where
  "Cache_flush c ko clk =
     (case ko of
        Some k \<Rightarrow>
          (if map_of (data c) k \<noteq> None then
             (case dict_del (data c) k of Inl e \<Rightarrow> Inl e | Inr d \<Rightarrow> Inr (c\<lparr>data := d\<rparr>, clk))
           else Inr (c, clk))
      | None \<Rightarrow>
          (let (now, clk') = time_time clk
           in Inr (c\<lparr>data := [], next_cleaning := now + cleaning_interval c\<rparr>, clk')))"

subsection \<open>The LRU cache\<close>

text \<open>
  The nodes of the recency list are objects that point at each other, so they live in a
  store: an address is a number, the store maps an address to the node there, and a new
  node takes the next free address. Only \<open>flush()\<close> writes \<open>None\<close> into the link
  fields, so a link is an address.
\<close>

type_synonym addr = nat

record LRUCacheNode =
  node_key :: "cache_key option"
  node_value :: "Answer option"
  prev :: addr
  nxt :: addr

type_synonym store = "addr \<Rightarrow> LRUCacheNode"

text \<open>\<open>LRUCacheNode.__init__\<close>, at the address \<open>a\<close>.\<close>

definition new_node :: "store \<Rightarrow> addr \<Rightarrow> cache_key option \<Rightarrow> Answer option \<Rightarrow> store" where
  "new_node h a k v = h(a := \<lparr>node_key = k, node_value = v, prev = a, nxt = a\<rparr>)"

definition link_before :: "store \<Rightarrow> addr \<Rightarrow> addr \<Rightarrow> store" where
  "link_before h self node =
     (let h1 = h(self := (h self)\<lparr>prev := prev (h node)\<rparr>);
          h2 = h1(self := (h1 self)\<lparr>nxt := node\<rparr>);
          h3 = h2(prev (h2 node) := (h2 (prev (h2 node)))\<lparr>nxt := self\<rparr>);
          h4 = h3(node := (h3 node)\<lparr>prev := self\<rparr>)
      in h4)"

definition link_after :: "store \<Rightarrow> addr \<Rightarrow> addr \<Rightarrow> store" where
  "link_after h self node =
     (let h1 = h(self := (h self)\<lparr>prev := node\<rparr>);
          h2 = h1(self := (h1 self)\<lparr>nxt := nxt (h1 node)\<rparr>);
          h3 = h2(nxt (h2 node) := (h2 (nxt (h2 node)))\<lparr>prev := self\<rparr>);
          h4 = h3(node := (h3 node)\<lparr>nxt := self\<rparr>)
      in h4)"

definition unlink :: "store \<Rightarrow> addr \<Rightarrow> store" where
  "unlink h self =
     (let h1 = h(nxt (h self) := (h (nxt (h self)))\<lparr>prev := prev (h self)\<rparr>);
          h2 = h1(prev (h1 self) := (h1 (prev (h1 self)))\<lparr>nxt := nxt (h1 self)\<rparr>)
      in h2)"

record LRUCache =
  lru_data :: "(cache_key \<times> addr) list"
  max_size :: int
  sentinel :: addr
  heap :: store
  next_free :: addr

definition set_max_size :: "LRUCache \<Rightarrow> int \<Rightarrow> LRUCache" where
  "set_max_size c n = c\<lparr>max_size := (if n < 1 then 1 else n)\<rparr>"

definition LRUCache_init :: "int \<Rightarrow> LRUCache" where
  "LRUCache_init n =
     (let c = \<lparr>lru_data = [], max_size = 0, sentinel = 0,
               heap = (\<lambda>a. \<lparr>node_key = None, node_value = None, prev = a, nxt = a\<rparr>),
               next_free = 0\<rparr>;
          c1 = set_max_size c n
      in c1\<lparr>sentinel := next_free c1,
             heap := new_node (heap c1) (next_free c1) None None,
             next_free := Suc (next_free c1)\<rparr>)"

text \<open>\<open>del self.data[node.key]\<close>: the key of the sentinel is \<open>None\<close>, which is no key
  of the dictionary.\<close>

definition del_node_key :: "(cache_key \<times> addr) list \<Rightarrow> cache_key option
    \<Rightarrow> error + (cache_key \<times> addr) list" where
  "del_node_key d ko = (case ko of None \<Rightarrow> Inl KeyError | Some k \<Rightarrow> dict_del d k)"

definition LRUCache_get :: "LRUCache \<Rightarrow> cache_key \<Rightarrow> clock
    \<Rightarrow> error + (Answer option \<times> LRUCache \<times> clock)" where
  "LRUCache_get c k clk =
     (case map_of (lru_data c) k of
        None \<Rightarrow> Inr (None, c, clk)
      | Some node \<Rightarrow>
          (let h1 = unlink (heap c) node
           in case node_value (h1 node) of
                None \<Rightarrow> Inl AttributeError
              | Some v \<Rightarrow>
                  (let (now, clk1) = time_time clk
                   in if expiration v \<le> now then
                        (case del_node_key (lru_data c) (node_key (h1 node)) of
                           Inl e \<Rightarrow> Inl e
                         | Inr d \<Rightarrow> Inr (None, c\<lparr>heap := h1, lru_data := d\<rparr>, clk1))
                      else
                        Inr (Some v, c\<lparr>heap := link_after h1 node (sentinel c)\<rparr>, clk1))))"

text \<open>
  The loop \<open>while len(self.data) >= self.max_size\<close> of \<open>put\<close>. Every round deletes a
  key from the dictionary or raises, so the loop ends.
\<close>

function evict :: "LRUCache \<Rightarrow> error + LRUCache" where
  "evict c =
     (if int (length (lru_data c)) \<ge> max_size c then
        (let node = prev (heap c (sentinel c));
             h1 = unlink (heap c) node
         in case del_node_key (lru_data c) (node_key (h1 node)) of
              Inl e \<Rightarrow> Inl e
            | Inr d \<Rightarrow> evict (c\<lparr>heap := h1, lru_data := d\<rparr>))
      else Inr c)"
  by pat_completeness auto
termination
proof -
  have del: "length (AList.delete k al) < length al" if "map_of al k \<noteq> None"
    for k :: cache_key and al :: "(cache_key \<times> addr) list"
    using that by (induction al) (auto simp: less_Suc_eq_le AList.length_delete_le)
  show ?thesis
    by (relation "measure (\<lambda>c. length (lru_data c))")
      (auto simp: del_node_key_def dict_del_def del split: option.splits if_splits)
qed

declare evict.simps [simp del]

definition LRUCache_put :: "LRUCache \<Rightarrow> cache_key \<Rightarrow> Answer \<Rightarrow> error + LRUCache" where
  "LRUCache_put c k v =
     (case (case map_of (lru_data c) k of
              None \<Rightarrow> Inr c
            | Some node \<Rightarrow>
                (let h1 = unlink (heap c) node
                 in case del_node_key (lru_data c) (node_key (h1 node)) of
                      Inl e \<Rightarrow> Inl e
                    | Inr d \<Rightarrow> Inr (c\<lparr>heap := h1, lru_data := d\<rparr>))) of
        Inl e \<Rightarrow> Inl e
      | Inr c1 \<Rightarrow>
          (case evict c1 of
             Inl e \<Rightarrow> Inl e
           | Inr c2 \<Rightarrow>
               (let node = next_free c2;
                    h = new_node (heap c2) node (Some k) (Some v);
                    h' = link_after h node (sentinel c2)
                in Inr (c2\<lparr>heap := h', next_free := Suc node,
                           lru_data := AList.update k node (lru_data c2)\<rparr>))))"

subsection \<open>The resolver configuration and the candidate names\<close>

datatype cache = SimpleCache Cache | LRU LRUCache

definition cache_get :: "cache \<Rightarrow> cache_key \<Rightarrow> clock \<Rightarrow> error + (Answer option \<times> cache \<times> clock)" where
  "cache_get ch k clk =
     (case ch of
        SimpleCache c \<Rightarrow>
          (case Cache_get c k clk of
             Inl e \<Rightarrow> Inl e
           | Inr (r, c', clk') \<Rightarrow> Inr (r, SimpleCache c', clk'))
      | LRU c \<Rightarrow>
          (case LRUCache_get c k clk of
             Inl e \<Rightarrow> Inl e
           | Inr (r, c', clk') \<Rightarrow> Inr (r, LRU c', clk')))"

definition cache_put :: "cache \<Rightarrow> cache_key \<Rightarrow> Answer \<Rightarrow> clock \<Rightarrow> error + (cache \<times> clock)" where
  "cache_put ch k v clk =
     (case ch of
        SimpleCache c \<Rightarrow>
          (case Cache_put c k v clk of
             Inl e \<Rightarrow> Inl e
           | Inr (c', clk') \<Rightarrow> Inr (SimpleCache c', clk'))
      | LRU c \<Rightarrow>
          (case LRUCache_put c k v of
             Inl e \<Rightarrow> Inl e
           | Inr c' \<Rightarrow> Inr (LRU c', clk)))"

record Resolver =
  domain :: name
  resolver_nameservers :: "string list"
  nameserver_ports :: "string \<rightharpoonup> int"
  default_port :: int
  search :: "name list"
  use_search_by_default :: bool
  timeout :: real
  lifetime :: real
  keyring :: "(name \<times> string) list option"
  keyname :: "name option"
  keyalgorithm :: name
  edns :: int
  ednsflags :: int
  payload :: int
  cache :: "cache option"
  flags :: "int option"
  retry_servfail :: bool
  rotate :: bool
  ndots :: "int option"

text \<open>
  \<open>Resolver.reset\<close>. The host name that \<open>socket.gethostname()\<close> gives, as an
  absolute name, and the default TSIG algorithm of \<open>dns.tsig\<close> are arguments.
\<close>

definition reset :: "name \<Rightarrow> name \<Rightarrow> Resolver" where
  "reset hostname default_algorithm =
     \<lparr>domain = (if length (tl hostname) = 0 then root else tl hostname),
      resolver_nameservers = [], nameserver_ports = Map.empty, default_port = 53,
      search = [], use_search_by_default = False, timeout = 2.0, lifetime = 30.0,
      keyring = None, keyname = None, keyalgorithm = default_algorithm,
      edns = - 1, ednsflags = 0, payload = 0, cache = None, flags = None,
      retry_servfail = False, rotate = False, ndots = None\<rparr>"

text \<open>The loop \<open>for suffix in self.search\<close> of \<open>_get_qnames_to_try\<close>.\<close>

fun search_loop :: "Resolver \<Rightarrow> name \<Rightarrow> name list \<Rightarrow> name list \<Rightarrow> error + name list" where
  "search_loop r qn [] qnames_to_try = Inr qnames_to_try"
| "search_loop r qn (suffix # rest) qnames_to_try =
     (if (case ndots r of None \<Rightarrow> True | Some nd \<Rightarrow> int (length qn) \<ge> nd) then
        (case concatenate qn suffix of
           Inl e \<Rightarrow> Inl e
         | Inr n \<Rightarrow> search_loop r qn rest (qnames_to_try @ [n]))
      else search_loop r qn rest qnames_to_try)"

definition get_qnames_to_try :: "Resolver \<Rightarrow> name \<Rightarrow> bool option \<Rightarrow> error + name list" where
  "get_qnames_to_try r qn search_arg =
     (let srch = (case search_arg of None \<Rightarrow> use_search_by_default r | Some b \<Rightarrow> b)
      in if is_absolute qn then Inr [qn]
         else
           (case (if length qn > 1 then
                    (case concatenate qn root of Inl e \<Rightarrow> Inl e | Inr n \<Rightarrow> Inr [n])
                  else Inr []) of
              Inl e \<Rightarrow> Inl e
            | Inr qnames_to_try \<Rightarrow>
                (if srch \<and> search r \<noteq> [] then search_loop r qn (search r) qnames_to_try
                 else
                   (case concatenate qn (domain r) of
                      Inl e \<Rightarrow> Inl e
                    | Inr n \<Rightarrow> Inr (qnames_to_try @ [n])))))"

text \<open>
  \<open>Resolver._compute_timeout\<close>. The assignment \<open>now = start\<close> of the source has no
  effect on what is returned: \<open>duration\<close> is not computed again.
\<close>

definition compute_timeout :: "Resolver \<Rightarrow> real \<Rightarrow> real option \<Rightarrow> clock \<Rightarrow> error + (real \<times> clock)" where
  "compute_timeout r start lifetime_arg clk =
     (let lt = (case lifetime_arg of None \<Rightarrow> lifetime r | Some l \<Rightarrow> l);
          (now, clk') = time_time clk;
          duration = now - start
      in if duration < 0 \<and> duration < - 1 then Inl (Timeout duration)
         else if duration \<ge> lt then Inl (Timeout duration)
         else Inr (min (lt - duration) (timeout r), clk'))"

subsection \<open>The environment of a lookup\<close>

text \<open>
  What \<open>resolve\<close> calls outside this module: the predicates \<open>is_metatype\<close> and
  \<open>is_metaclass\<close>, \<open>random.shuffle\<close>, \<open>dns.inet.is_address\<close>, the scheme that
  \<open>urlparse\<close> finds, and the three transports of \<open>dns.query\<close>. A transport gets the
  number of the attempts made before, so that it may answer each call differently; it
  returns the response or the exception it raises.
\<close>

record env =
  is_metatype :: "rdatatype \<Rightarrow> bool"
  is_metaclass :: "rdataclass \<Rightarrow> bool"
  shuffle :: "string list \<Rightarrow> string list"
  is_address :: "string \<Rightarrow> bool"
  url_scheme :: "string \<Rightarrow> string"
  udp_query :: "nat \<Rightarrow> request option \<Rightarrow> string \<Rightarrow> real \<Rightarrow> int \<Rightarrow> string option \<Rightarrow> int
      \<Rightarrow> error + message"
  tcp_query :: "nat \<Rightarrow> request option \<Rightarrow> string \<Rightarrow> real \<Rightarrow> int \<Rightarrow> string option \<Rightarrow> int
      \<Rightarrow> error + message"
  https_query :: "nat \<Rightarrow> request option \<Rightarrow> string \<Rightarrow> real \<Rightarrow> error + message"

subsection \<open>The state machine of one lookup\<close>

record Resolution =
  resolver :: Resolver
  qnames_to_try :: "name list"
  qnames :: "name list"
  rdtype :: rdatatype
  rdclass :: rdataclass
  tcp :: bool
  raise_on_no_answer :: bool
  nxdomain_responses :: "name \<rightharpoonup> message"
  qname :: name
  nameservers :: "string list"
  current_nameservers :: "string list"
  errors :: "err_entry list"
  nameserver :: "string option"
  port :: int
  tcp_attempt :: bool
  retry_with_tcp :: bool
  request :: "request option"
  backoff :: real

text \<open>
  \<open>_Resolution.__init__\<close>, for a name, a type and a class that are given as such
  (the text forms are parsed by modules that are not among the sources).
\<close>

definition Resolution_init :: "env \<Rightarrow> Resolver \<Rightarrow> name \<Rightarrow> rdatatype \<Rightarrow> rdataclass \<Rightarrow> bool
    \<Rightarrow> bool \<Rightarrow> bool option \<Rightarrow> error + Resolution" where
  "Resolution_init ev r qn rdt rdc tcp_arg raise_arg search_arg =
     (if is_metatype ev rdt then Inl NoMetaqueries
      else if is_metaclass ev rdc then Inl NoMetaqueries
      else
        (case get_qnames_to_try r qn search_arg of
           Inl e \<Rightarrow> Inl e
         | Inr qs \<Rightarrow>
             Inr \<lparr>resolver = r, qnames_to_try = qs, qnames = qs, rdtype = rdt, rdclass = rdc,
                  tcp = tcp_arg, raise_on_no_answer = raise_arg,
                  nxdomain_responses = Map.empty, qname = empty_name, nameservers = [],
                  current_nameservers = [], errors = [], nameserver = None, port = 0,
                  tcp_attempt = False, retry_with_tcp = False, request = None,
                  backoff = 0\<rparr>))"

text \<open>The request that \<open>next_request\<close> builds.\<close>

definition make_request :: "Resolver \<Rightarrow> name \<Rightarrow> rdatatype \<Rightarrow> rdataclass \<Rightarrow> request" where
  "make_request r qn rdt rdc =
     \<lparr>rq_qname = qn, rq_rdtype = rdt, rq_rdclass = rdc,
      rq_tsig = (case keyname r of
                   None \<Rightarrow> None
                 | Some kn \<Rightarrow> Some (keyring r, kn, keyalgorithm r)),
      rq_edns = (edns r, ednsflags r, payload r),
      rq_flags = flags r\<rparr>"

text \<open>The second half of \<open>next_request\<close>, after the cache has been asked.\<close>

definition start_request :: "env \<Rightarrow> Resolution \<Rightarrow> Resolution \<times> request" where
  "start_request ev s =
     (let rq = make_request (resolver s) (qname s) (rdtype s) (rdclass s);
          nss = (if rotate (resolver s) then shuffle ev (resolver_nameservers (resolver s))
                 else resolver_nameservers (resolver s))
      in (s\<lparr>nameservers := nss, current_nameservers := nss, errors := [],
             nameserver := None, tcp_attempt := False, retry_with_tcp := False,
             request := Some rq, backoff := 0.10\<rparr>, rq))"

definition next_request :: "env \<Rightarrow> Resolution \<Rightarrow> clock
    \<Rightarrow> error + ((request option \<times> Answer option) \<times> Resolution \<times> clock)" where
  "next_request ev s clk =
     (if length (qnames s) = 0 then
        (case NXDOMAIN_init (qnames_to_try s) (nxdomain_responses s) of
           Inl e \<Rightarrow> Inl e
         | Inr nx \<Rightarrow> Inl (NXDOMAIN_raised nx))
      else
        (let s1 = s\<lparr>qname := last (qnames s), qnames := butlast (qnames s)\<rparr>
         in case cache (resolver s1) of
              None \<Rightarrow> (let (s2, rq) = start_request ev s1 in Inr ((Some rq, None), s2, clk))
            | Some ch \<Rightarrow>
                (case cache_get ch (qname s1, rdtype s1, rdclass s1) clk of
                   Inl e \<Rightarrow> Inl e
                 | Inr (ans, ch', clk') \<Rightarrow>
                     (let s2 = s1\<lparr>resolver := (resolver s1)\<lparr>cache := Some ch'\<rparr>\<rparr>
                      in case ans of
                           Some a \<Rightarrow>
                             (if rrset a = None \<and> raise_on_no_answer s2
                              then Inl (NoAnswer (ans_response a))
                              else Inr ((None, Some a), s2, clk'))
                         | None \<Rightarrow>
                             (let (s3, rq) = start_request ev s2
                              in Inr ((Some rq, None), s3, clk'))))))"

text \<open>
  What \<open>next_nameserver\<close> returns: the first \<open>return\<close> of the source gives a tuple of
  three, the second a tuple of four.
\<close>

datatype ns_tuple = Tuple3 string int bool | Tuple4 string int bool real

definition next_nameserver :: "Resolution \<Rightarrow> error + (ns_tuple \<times> Resolution)" where
  "next_nameserver s =
     (if retry_with_tcp s then
        (case nameserver s of
           None \<Rightarrow> Inl AssertionError
         | Some ns \<Rightarrow>
             Inr (Tuple3 ns (port s) True, s\<lparr>tcp_attempt := True, retry_with_tcp := False\<rparr>))
      else
        (case (if current_nameservers s = [] then
                 (if length (nameservers s) = 0
                  then Inl (NoNameservers (request s) (errors s))
                  else Inr (backoff s,
                            s\<lparr>current_nameservers := nameservers s,
                              backoff := min (backoff s * 2) 2\<rparr>))
               else Inr (0, s)) of
           Inl e \<Rightarrow> Inl e
         | Inr (backoff_out, s1) \<Rightarrow>
             (if current_nameservers s1 = [] then Inl IndexError
              else
                (let ns = last (current_nameservers s1);
                     p = (case nameserver_ports (resolver s1) ns of
                            Some q \<Rightarrow> q
                          | None \<Rightarrow> default_port (resolver s1));
                     s2 = s1\<lparr>current_nameservers := butlast (current_nameservers s1),
                             nameserver := Some ns, port := p, tcp_attempt := tcp s1\<rparr>
                 in Inr (Tuple4 ns p (tcp_attempt s2) backoff_out, s2)))))"

text \<open>\<open>self.nameservers.remove(self.nameserver)\<close>: the first occurrence goes, and
  \<open>ValueError\<close> is raised when there is none.\<close>

definition list_remove :: "'a list \<Rightarrow> 'a option \<Rightarrow> error + 'a list" where
  "list_remove xs xo =
     (case xo of
        None \<Rightarrow> Inl ValueError
      | Some x \<Rightarrow> (if x \<in> set xs then Inr (remove1 x xs) else Inl ValueError))"

text \<open>
  \<open>query_result\<close> changes the state before some of its \<open>raise\<close>s, and its caller
  catches what it raises: the state comes back in both cases, next to the exception or
  to the pair \<open>(answer, end_loop)\<close>. An exception stands for its class and the
  subclasses. A cache operation that raises leaves the cache as it was before the call.
\<close>

definition query_result :: "Resolution \<Rightarrow> message option \<Rightarrow> error option \<Rightarrow> clock
    \<Rightarrow> (error + (Answer option \<times> bool)) \<times> Resolution \<times> clock" where
  "query_result s resp_arg ex clk =
     (case ex of
        Some e \<Rightarrow>
          (case resp_arg of
             Some m \<Rightarrow> (Inl AssertionError, s, clk)
           | None \<Rightarrow>
               (let s1 = s\<lparr>errors := errors s @
                            [(nameserver s, tcp_attempt s, port s, Inl e, None)]\<rparr>
                in if e = FormError \<or> e = EOFError \<or> e = NotImplementedError then
                     (case list_remove (nameservers s1) (nameserver s1) of
                        Inl e' \<Rightarrow> (Inl e', s1, clk)
                      | Inr nss \<Rightarrow> (Inr (None, False), s1\<lparr>nameservers := nss\<rparr>, clk))
                   else if e = Truncated then
                     (if tcp_attempt s1 then
                        (case list_remove (nameservers s1) (nameserver s1) of
                           Inl e' \<Rightarrow> (Inl e', s1, clk)
                         | Inr nss \<Rightarrow> (Inr (None, False), s1\<lparr>nameservers := nss\<rparr>, clk))
                      else (Inr (None, False), s1\<lparr>retry_with_tcp := True\<rparr>, clk))
                   else (Inr (None, False), s1, clk)))
      | None \<Rightarrow>
          (case resp_arg of
             None \<Rightarrow> (Inl AssertionError, s, clk)
           | Some m \<Rightarrow>
               (if rcode m = NOERROR then
                  (case Answer_init (qname s) (rdtype s) (rdclass s) m (raise_on_no_answer s)
                          (nameserver s) (Some (port s)) clk of
                     Inl e \<Rightarrow> (Inl e, s, clk)
                   | Inr (a, clk1) \<Rightarrow>
                       (case cache (resolver s) of
                          None \<Rightarrow> (Inr (Some a, True), s, clk1)
                        | Some ch \<Rightarrow>
                            (case cache_put ch (qname s, rdtype s, rdclass s) a clk1 of
                               Inl e \<Rightarrow> (Inl e, s, clk1)
                             | Inr (ch', clk2) \<Rightarrow>
                                 (Inr (Some a, True),
                                  s\<lparr>resolver := (resolver s)\<lparr>cache := Some ch'\<rparr>\<rparr>, clk2))))
                else if rcode m = NXDOMAIN_rcode then
                  (Inr (None, True),
                   s\<lparr>nxdomain_responses := (nxdomain_responses s)(qname s \<mapsto> m)\<rparr>, clk)
                else if rcode m = YXDOMAIN_rcode then
                  (Inl YXDOMAIN,
                   s\<lparr>errors := errors s @
                        [(nameserver s, tcp_attempt s, port s, Inl YXDOMAIN, Some m)]\<rparr>, clk)
                else
                  (case (if rcode m \<noteq> SERVFAIL \<or> \<not> retry_servfail (resolver s)
                         then list_remove (nameservers s) (nameserver s)
                         else Inr (nameservers s)) of
                     Inl e \<Rightarrow> (Inl e, s, clk)
                   | Inr nss \<Rightarrow>
                       (Inr (None, False),
                        s\<lparr>nameservers := nss,
                          errors := errors s @
                            [(nameserver s, tcp_attempt s, port s, Inr (rcode m), Some m)]\<rparr>,
                        clk)))))"

subsection \<open>The driver loop of resolve\<close>

text \<open>
  \<open>Answer.__len__\<close>, which decides \<open>if answer:\<close>: the number of records of the
  record set, and 0 without one.
\<close>

definition Answer_len :: "Answer \<Rightarrow> nat" where
  "Answer_len a = (case rrset a of None \<Rightarrow> 0 | Some rs \<Rightarrow> length (rdatas rs))"

definition truthy :: "Answer option \<Rightarrow> Answer option" where
  "truthy ans = (case ans of None \<Rightarrow> None | Some a \<Rightarrow> (if Answer_len a \<noteq> 0 then Some a else None))"

text \<open>
  The statements of the \<open>try\<close> block that choose the transport: the call raises, or
  assigns \<open>response\<close>, or the \<open>continue\<close> is taken (\<open>Skip\<close>), or nothing happens
  because the nameserver is no address and has no scheme (\<open>Unchanged\<close>).
\<close>

datatype io_outcome = Skip | Raised error | Got message | Unchanged

definition send_query :: "env \<Rightarrow> nat \<Rightarrow> request option \<Rightarrow> string \<Rightarrow> int \<Rightarrow> bool \<Rightarrow> real
    \<Rightarrow> string option \<Rightarrow> int \<Rightarrow> io_outcome" where
  "send_query ev i rq ns p use_tcp tmo source source_port =
     (if is_address ev ns then
        (case (if use_tcp then tcp_query ev i rq ns tmo p source source_port
               else udp_query ev i rq ns tmo p source source_port) of
           Inl e \<Rightarrow> Raised e
         | Inr m \<Rightarrow> Got m)
      else
        (let protocol = url_scheme ev ns
         in if protocol = ''https'' then
              (case https_query ev i rq ns tmo of Inl e \<Rightarrow> Raised e | Inr m \<Rightarrow> Got m)
            else if protocol \<noteq> [] then Skip
            else Unchanged))"

text \<open>
  The local state of \<open>resolve\<close>: the resolution, the clock, the number of
  attempts made, and the variable \<open>response\<close>, which is unbound until the first
  assignment.
\<close>

record driver =
  resolution :: Resolution
  the_clock :: clock
  io_count :: nat
  response_var :: "message option"

text \<open>The handler \<open>except Exception as ex\<close>; what it raises leaves \<open>resolve\<close>.\<close>

definition except_handler :: "error \<Rightarrow> driver \<Rightarrow> error + (Answer option \<times> bool \<times> driver)" where
  "except_handler ex d =
     (case query_result (resolution d) None (Some ex) (the_clock d) of
        (Inl e, s, clk) \<Rightarrow> Inl e
      | (Inr (a, done), s, clk) \<Rightarrow> Inr (None, done, d\<lparr>resolution := s, the_clock := clk\<rparr>))"

text \<open>The rest of the \<open>try\<close> block, once \<open>response\<close> is bound: the answer of the
  result is the one that \<open>if answer:\<close> lets through.\<close>

definition try_body :: "driver \<Rightarrow> error + (Answer option \<times> bool \<times> driver)" where
  "try_body d =
     (case query_result (resolution d) (response_var d) None (the_clock d) of
        (Inl ex, s, clk) \<Rightarrow> except_handler ex (d\<lparr>resolution := s, the_clock := clk\<rparr>)
      | (Inr (a, done), s, clk) \<Rightarrow>
          Inr (truthy a, done, d\<lparr>resolution := s, the_clock := clk\<rparr>))"

text \<open>The \<open>try\<close> statement of one round of the inner loop; \<open>continue\<close> leaves
  \<open>done\<close> false and returns no answer.\<close>

definition try_block :: "io_outcome \<Rightarrow> driver \<Rightarrow> error + (Answer option \<times> bool \<times> driver)" where
  "try_block outcome d =
     (case outcome of
        Skip \<Rightarrow> Inr (None, False, d)
      | Raised ex \<Rightarrow> except_handler ex d
      | Got m \<Rightarrow> try_body (d\<lparr>response_var := Some m\<rparr>)
      | Unchanged \<Rightarrow>
          (case response_var d of
             None \<Rightarrow> except_handler UnboundLocalError d
           | Some m \<Rightarrow> try_body d))"

datatype phase = Select_qname | Attempts "request option"

text \<open>
  The two nested loops of \<open>resolve\<close>. They may go on for ever (a transport that always
  times out, under a clock that stands still), so the first argument bounds the number
  of rounds, of either loop, and \<open>None\<close> says that the bound was reached.
\<close>

fun run_resolve :: "nat \<Rightarrow> env \<Rightarrow> string option \<Rightarrow> int \<Rightarrow> real option \<Rightarrow> real \<Rightarrow> phase
    \<Rightarrow> driver \<Rightarrow> (error + Answer) option" where
  "run_resolve 0 ev source source_port lifetime_arg start ph d = None"
| "run_resolve (Suc n) ev source source_port lifetime_arg start Select_qname d =
     (case next_request ev (resolution d) (the_clock d) of
        Inl e \<Rightarrow> Some (Inl e)
      | Inr ((rq, ans), s, clk) \<Rightarrow>
          (case truthy ans of
             Some a \<Rightarrow> Some (Inr a)
           | None \<Rightarrow>
               run_resolve n ev source source_port lifetime_arg start (Attempts rq)
                 (d\<lparr>resolution := s, the_clock := clk\<rparr>)))"
| "run_resolve (Suc n) ev source source_port lifetime_arg start (Attempts rq) d =
     (case next_nameserver (resolution d) of
        Inl e \<Rightarrow> Some (Inl e)
      | Inr (Tuple3 ns p t, s) \<Rightarrow> Some (Inl ValueError)
      | Inr (Tuple4 ns p t backoff_out, s) \<Rightarrow>
          (case compute_timeout (resolver s) start lifetime_arg (the_clock d) of
             Inl e \<Rightarrow> Some (Inl e)
           | Inr (tmo, clk) \<Rightarrow>
               (let d1 = d\<lparr>resolution := s, the_clock := clk, io_count := Suc (io_count d)\<rparr>;
                    outcome = send_query ev (io_count d) rq ns p t tmo source source_port
                in case try_block outcome d1 of
                     Inl e \<Rightarrow> Some (Inl e)
                   | Inr (Some a, done, d2) \<Rightarrow> Some (Inr a)
                   | Inr (None, done, d2) \<Rightarrow>
                       run_resolve n ev source source_port lifetime_arg start
                         (if done then Select_qname else Attempts rq) d2)))"

definition resolve :: "nat \<Rightarrow> env \<Rightarrow> Resolver \<Rightarrow> name \<Rightarrow> rdatatype \<Rightarrow> rdataclass \<Rightarrow> bool
    \<Rightarrow> string option \<Rightarrow> bool \<Rightarrow> int \<Rightarrow> real option \<Rightarrow> bool option \<Rightarrow> clock
    \<Rightarrow> (error + Answer) option" where
  "resolve fuel ev r qn rdt rdc tcp_arg source raise_arg source_port lifetime_arg search_arg clk =
     (case Resolution_init ev r qn rdt rdc tcp_arg raise_arg search_arg of
        Inl e \<Rightarrow> Some (Inl e)
      | Inr s \<Rightarrow>
          (let (start, clk1) = time_time clk
           in run_resolve fuel ev source source_port lifetime_arg start Select_qname
                \<lparr>resolution = s, the_clock = clk1, io_count = 0, response_var = None\<rparr>))"

subsection \<open>The pool of nameservers\<close>

text \<open>
  Two conditions on the state of a lookup, as multisets, since an address may be
  configured twice. \<open>pool_ok\<close>: the nameservers still to be tried in this round are
  among those of the pool. \<open>selected_ok\<close>: a nameserver is selected, and it is in
  the pool together with those still to be tried.
\<close>

definition pool_ok :: "Resolution \<Rightarrow> bool" where
  "pool_ok s \<longleftrightarrow> mset (current_nameservers s) \<subseteq># mset (nameservers s)"

definition selected_ok :: "Resolution \<Rightarrow> bool" where
  "selected_ok s \<longleftrightarrow>
     (\<exists>ns. nameserver s = Some ns
        \<and> add_mset ns (mset (current_nameservers s)) \<subseteq># mset (nameservers s))"

subsection \<open>Runs of the LRU cache\<close>

text \<open>
  A use of the cache is a \<open>get\<close> or a \<open>put\<close>; a run applies a sequence of them, one
  after the other, and stops at the first exception.
\<close>

datatype lru_op = Get cache_key | Put cache_key Answer

fun lru_step :: "lru_op \<Rightarrow> LRUCache \<Rightarrow> clock \<Rightarrow> error + (LRUCache \<times> clock)" where
  "lru_step (Get k) c clk =
     (case LRUCache_get c k clk of Inl e \<Rightarrow> Inl e | Inr (r, c', clk') \<Rightarrow> Inr (c', clk'))"
| "lru_step (Put k v) c clk =
     (case LRUCache_put c k v of Inl e \<Rightarrow> Inl e | Inr c' \<Rightarrow> Inr (c', clk))"

fun lru_run :: "lru_op list \<Rightarrow> LRUCache \<Rightarrow> clock \<Rightarrow> error + (LRUCache \<times> clock)" where
  "lru_run [] c clk = Inr (c, clk)"
| "lru_run (x # ops) c clk =
     (case lru_step x c clk of Inl e \<Rightarrow> Inl e | Inr (c', clk') \<Rightarrow> lru_run ops c' clk')"

text \<open>
  In the words of the specification, the entry evicted on overflow is "the one whose
  last \<open>get\<close> or \<open>put\<close> is earliest": \<open>last_use ops k\<close> is the position in
  \<open>ops\<close>, counted from 1, of the last \<open>get\<close> or \<open>put\<close> of the key \<open>k\<close>, and 0
  when there is none.
\<close>

fun op_key :: "lru_op \<Rightarrow> cache_key" where
  "op_key (Get k) = k"
| "op_key (Put k v) = k"

definition last_use :: "lru_op list \<Rightarrow> cache_key \<Rightarrow> nat" where
  "last_use ops k = length (dropWhile (\<lambda>x. op_key x \<noteq> k) (rev ops))"

subsection \<open>The invariant of the LRU cache\<close>

text \<open>
  \<open>cyc f a xs\<close>: following \<open>f\<close> from \<open>a\<close> visits \<open>xs\<close> in order and comes back to
  \<open>a\<close>. \<open>dll h s ns\<close>: the nodes \<open>ns\<close> and the sentinel \<open>s\<close> are distinct, the
  \<open>next\<close> links run from the sentinel through \<open>ns\<close> and back, and the \<open>prev\<close> links
  run the other way round. \<open>dict_rel\<close>: the dictionary maps exactly the keys of the
  nodes \<open>ns\<close> to these nodes. \<open>lru_inv c ns\<close> puts the two together for a cache, with
  every node below the next free address; \<open>frame\<close> says what a \<open>get\<close> leaves alone;
  \<open>run_inv\<close> adds the capacity and that \<open>ns\<close> is in the order of the last use of the
  keys, latest first.
\<close>

definition cyc :: "(addr \<Rightarrow> addr) \<Rightarrow> addr \<Rightarrow> addr list \<Rightarrow> bool" where
  "cyc f a xs \<longleftrightarrow> map f (a # xs) = xs @ [a]"

definition dll :: "store \<Rightarrow> addr \<Rightarrow> addr list \<Rightarrow> bool" where
  "dll h s ns \<longleftrightarrow>
     distinct (s # ns) \<and> cyc (\<lambda>a. nxt (h a)) s ns \<and> cyc (\<lambda>a. prev (h a)) s (rev ns)"

definition dict_rel :: "('k \<times> addr) list \<Rightarrow> (addr \<Rightarrow> 'k option) \<Rightarrow> (addr \<Rightarrow> 'v option) \<Rightarrow> addr list
    \<Rightarrow> bool" where
  "dict_rel d kf vf ns \<longleftrightarrow>
     distinct (map fst d) \<and> length d = length ns
     \<and> (\<forall>a \<in> set ns. kf a \<noteq> None \<and> vf a \<noteq> None)
     \<and> (\<forall>k a. map_of d k = Some a \<longleftrightarrow> a \<in> set ns \<and> kf a = Some k)"

definition lru_inv :: "LRUCache \<Rightarrow> addr list \<Rightarrow> bool" where
  "lru_inv c ns \<longleftrightarrow>
     dll (heap c) (sentinel c) ns
     \<and> dict_rel (lru_data c) (\<lambda>a. node_key (heap c a)) (\<lambda>a. node_value (heap c a)) ns
     \<and> (\<forall>a \<in> set (sentinel c # ns). a < next_free c)"

definition frame :: "LRUCache \<Rightarrow> LRUCache \<Rightarrow> bool" where
  "frame c c' \<longleftrightarrow> max_size c' = max_size c \<and> sentinel c' = sentinel c
     \<and> next_free c' = next_free c \<and> (\<forall>b. node_key (heap c' b) = node_key (heap c b))"

definition run_inv :: "lru_op list \<Rightarrow> LRUCache \<Rightarrow> addr list \<Rightarrow> bool" where
  "run_inv ops c ns \<longleftrightarrow>
     lru_inv c ns \<and> 1 \<le> max_size c \<and> int (length ns) \<le> max_size c
     \<and> sorted_wrt (\<lambda>a b. last_use ops (the (node_key (heap c b)))
                         < last_use ops (the (node_key (heap c a)))) ns"

subsection \<open>Stubs for the end-to-end scenarios\<close>

text \<open>
  The scenarios run the resolver against stubs: a UDP and a TCP transport that give a
  fixed result each, nameservers that are IP addresses, no metatypes or metaclasses, a
  shuffle that keeps the order, and a clock that stands still.
\<close>

definition stub_env :: "(error + message) \<Rightarrow> (error + message) \<Rightarrow> env" where
  "stub_env udp_result tcp_result =
     \<lparr>is_metatype = (\<lambda>t. False), is_metaclass = (\<lambda>c. False), shuffle = (\<lambda>xs. xs),
      is_address = (\<lambda>ns. True), url_scheme = (\<lambda>ns. []),
      udp_query = (\<lambda>i rq ns tmo p source source_port. udp_result),
      tcp_query = (\<lambda>i rq ns tmo p source source_port. tcp_result),
      https_query = (\<lambda>i rq ns tmo. Inl (OtherError ''no https''))\<rparr>"

definition frozen_clock :: "real \<Rightarrow> clock" where
  "frozen_clock t = (\<lambda>n. t)"

section \<open>Properties\<close>

subsection \<open>Candidate names\<close>

lemma concatenate_relative: "\<not> is_absolute qn \<Longrightarrow> concatenate qn other = Inr (qn @ other)"
  by (simp add: concatenate_def)

lemma search_loop_satisfied:
  "\<not> is_absolute qn \<Longrightarrow> (case ndots r of None \<Rightarrow> True | Some nd \<Rightarrow> nd \<le> int (length qn)) \<Longrightarrow>
   search_loop r qn suffixes acc = Inr (acc @ map (\<lambda>suffix. qn @ suffix) suffixes)"
  by (induction suffixes arbitrary: acc) (simp_all add: concatenate_relative)

lemma search_loop_unsatisfied:
  "ndots r = Some nd \<Longrightarrow> int (length qn) < nd \<Longrightarrow> search_loop r qn suffixes acc = Inr acc"
  by (induction suffixes arbitrary: acc) simp_all

text \<open>
  C5. The candidate list: \<open>[qname]\<close> for an absolute name; for a relative name without
  search, \<open>qname + root\<close> (only when the name has more than one label) and then
  \<open>qname + domain\<close>; with search enabled, a search list that is not empty, and
  \<open>ndots\<close> unset or not above the number of labels, \<open>qname + root\<close> (only when the
  name has more than one label) and then \<open>qname + suffix\<close> for every suffix, in the
  order of the search list. Concatenation to a relative name is \<open>@\<close>.
\<close>

theorem get_qnames_to_try_candidates:
  "(is_absolute qn \<longrightarrow> get_qnames_to_try r qn sa = Inr [qn])
   \<and> (\<not> is_absolute qn \<and> \<not> (case sa of None \<Rightarrow> use_search_by_default r | Some b \<Rightarrow> b)
        \<and> length qn > 1 \<longrightarrow>
      get_qnames_to_try r qn sa = Inr [qn @ root, qn @ domain r])
   \<and> (\<not> is_absolute qn \<and> \<not> (case sa of None \<Rightarrow> use_search_by_default r | Some b \<Rightarrow> b)
        \<and> length qn = 1 \<longrightarrow>
      get_qnames_to_try r qn sa = Inr [qn @ domain r])
   \<and> (\<not> is_absolute qn \<and> (case sa of None \<Rightarrow> use_search_by_default r | Some b \<Rightarrow> b)
        \<and> search r \<noteq> []
        \<and> (case ndots r of None \<Rightarrow> True | Some nd \<Rightarrow> nd \<le> int (length qn)) \<longrightarrow>
      get_qnames_to_try r qn sa =
        Inr ((if length qn > 1 then [qn @ root] else []) @ map (\<lambda>suffix. qn @ suffix) (search r)))"
  by (auto simp: get_qnames_to_try_def concatenate_relative search_loop_satisfied)

theorem get_qnames_to_try_candidates_witness:
  "get_qnames_to_try (reset [''box'', ''example'', ''''] [''hmac-md5'', '''']) [''host'', ''''] None
     = Inr [[''host'', '''']]
   \<and> get_qnames_to_try (reset [''box'', ''example'', ''''] [''hmac-md5'', '''']) [''www'', ''dev''] None
     = Inr [[''www'', ''dev'', ''''], [''www'', ''dev'', ''example'', '''']]
   \<and> get_qnames_to_try (reset [''box'', ''example'', ''''] [''hmac-md5'', '''']) [''host''] None
     = Inr [[''host'', ''example'', '''']]
   \<and> get_qnames_to_try
        ((reset [''box'', ''example'', ''''] [''hmac-md5'', ''''])
           \<lparr>search := [[''corp'', ''example'', ''''], [''example'', '''']], ndots := Some 1\<rparr>)
        [''www'', ''dev''] (Some True)
     = Inr [[''www'', ''dev'', ''''], [''www'', ''dev'', ''corp'', ''example'', ''''],
            [''www'', ''dev'', ''example'', '''']]"
  using
    get_qnames_to_try_candidates [where qn = "[''host'', '''']"
      and r = "reset [''box'', ''example'', ''''] [''hmac-md5'', '''']" and sa = None]
    get_qnames_to_try_candidates [where qn = "[''www'', ''dev'']"
      and r = "reset [''box'', ''example'', ''''] [''hmac-md5'', '''']" and sa = None]
    get_qnames_to_try_candidates [where qn = "[''host'']"
      and r = "reset [''box'', ''example'', ''''] [''hmac-md5'', '''']" and sa = None]
    get_qnames_to_try_candidates [where qn = "[''www'', ''dev'']"
      and r = "(reset [''box'', ''example'', ''''] [''hmac-md5'', ''''])
           \<lparr>search := [[''corp'', ''example'', ''''], [''example'', '''']], ndots := Some 1\<rparr>"
      and sa = "Some True"]
  by (simp add: is_absolute_def reset_def root_def)

text \<open>
  C9. A relative name of one label, with search enabled, a search list that is not
  empty and \<open>ndots\<close> above 1, has no candidate at all; \<open>next_request\<close> then raises
  the \<open>AttributeError\<close> of the \<open>NXDOMAIN\<close> constructor, and so does \<open>resolve\<close>.
\<close>

theorem no_candidate_attribute_error:
  assumes "\<not> is_absolute qn" "length qn = 1"
    and "(case sa of None \<Rightarrow> use_search_by_default r | Some b \<Rightarrow> b)" "search r \<noteq> []"
    and "ndots r = Some nd" "1 < nd"
    and "\<not> is_metatype ev rdt" "\<not> is_metaclass ev rdc"
  shows "get_qnames_to_try r qn sa = Inr []
    \<and> (\<exists>s. Resolution_init ev r qn rdt rdc t ra sa = Inr s \<and> qnames_to_try s = [] \<and> qnames s = []
         \<and> next_request ev s clk = Inl AttributeError)
    \<and> resolve (Suc n) ev r qn rdt rdc t src ra sp lt sa clk = Some (Inl AttributeError)"
proof -
  have q: "get_qnames_to_try r qn sa = Inr []"
    using assms by (simp add: get_qnames_to_try_def search_loop_unsatisfied)
  show ?thesis using assms q
    by (simp add: Resolution_init_def next_request_def NXDOMAIN_init_def check_kwargs_def resolve_def time_time_def)
qed

theorem no_candidate_attribute_error_witness:
  "get_qnames_to_try
        ((reset [''box'', ''example'', ''''] [''hmac-md5'', ''''])
           \<lparr>search := [[''corp'', ''example'', ''''], [''example'', '''']], ndots := Some 2\<rparr>)
        [''host''] (Some True) = Inr []
   \<and> resolve (Suc 0) (stub_env (Inl Truncated) (Inl Truncated))
        ((reset [''box'', ''example'', ''''] [''hmac-md5'', ''''])
           \<lparr>search := [[''corp'', ''example'', ''''], [''example'', '''']], ndots := Some 2\<rparr>)
        [''host''] A IN False None True 0 None (Some True) (frozen_clock 0)
     = Some (Inl AttributeError)"
  using no_candidate_attribute_error [where qn = "[''host'']" and sa = "Some True"
      and r = "(reset [''box'', ''example'', ''''] [''hmac-md5'', ''''])
           \<lparr>search := [[''corp'', ''example'', ''''], [''example'', '''']], ndots := Some 2\<rparr>"
      and nd = 2 and ev = "stub_env (Inl Truncated) (Inl Truncated)" and rdt = A and rdc = IN
      and t = False and ra = True and clk = "frozen_clock 0" and n = 0 and src = None and sp = 0
      and lt = None]
  by (simp add: is_absolute_def reset_def stub_env_def)

subsection \<open>Merging NXDOMAIN values\<close>

lemma first_occurrences_Cons:
  "rev (remdups (rev (x # xs))) = x # rev (remdups (rev (filter (\<lambda>y. y \<noteq> x) xs)))"
proof -
  have "remdups (ys @ [x]) = remdups (filter (\<lambda>y. y \<noteq> x) ys) @ [x]" for ys
    by (induction ys) auto
  from this [of "rev xs"] show ?thesis by (simp add: rev_filter)
qed

lemma add_loop_qnames:
  "fst (add_loop qs r1 q0 r0) = q0 @ rev (remdups (rev (filter (\<lambda>q. q \<notin> set q0) qs)))"
proof (induction qs arbitrary: q0 r0)
  case Nil
  then show ?case by simp
next
  case (Cons q qs)
  show ?case
  proof (cases "q \<in> set q0")
    case True
    then show ?thesis by (simp add: Cons.IH Let_def)
  next
    case False
    have eq: "filter (\<lambda>y. y \<noteq> q) (filter (\<lambda>y. y \<notin> set q0) qs)
        = filter (\<lambda>y. y \<notin> set (q0 @ [q])) qs"
      by (auto intro: filter_cong)
    from False have "filter (\<lambda>y. y \<notin> set q0) (q # qs) = q # filter (\<lambda>y. y \<notin> set q0) qs"
      by simp
    then have novel: "rev (remdups (rev (filter (\<lambda>y. y \<notin> set q0) (q # qs))))
        = q # rev (remdups (rev (filter (\<lambda>y. y \<notin> set (q0 @ [q])) qs)))"
      by (simp only: first_occurrences_Cons eq)
    from False have "fst (add_loop (q # qs) r1 q0 r0)
        = fst (add_loop qs r1 (q0 @ [q]) (case r1 q of Some m \<Rightarrow> r0(q \<mapsto> m) | None \<Rightarrow> r0))"
      by (simp add: Let_def)
    also have "\<dots> = (q0 @ [q]) @ rev (remdups (rev (filter (\<lambda>y. y \<notin> set (q0 @ [q])) qs)))"
      by (rule Cons.IH)
    finally show ?thesis
      by (simp only: novel append_assoc append_Cons append_Nil)
  qed
qed

lemma add_loop_responses:
  "snd (add_loop qs r1 q0 r0) q = (if q \<in> set qs \<and> r1 q \<noteq> None then r1 q else r0 q)"
  by (induction qs arbitrary: q0 r0) (auto simp: Let_def split: option.splits)

text \<open>
  C6, as amended. For two \<open>NXDOMAIN\<close> values made by the constructor, the qnames of
  \<open>a + b\<close> are those of \<open>a\<close> followed by the qnames of \<open>b\<close> that are not among
  them, each once, in the order of their first occurrence in \<open>b\<close>; and the response of
  \<open>a + b\<close> for \<open>q\<close> is that of \<open>b\<close> when \<open>q\<close> is one of the qnames of \<open>b\<close> and
  \<open>b\<close> has a response for it, and that of \<open>a\<close> otherwise.
\<close>

theorem nx_add_merge:
  assumes "NXDOMAIN_init qa ra = Inr a" and "NXDOMAIN_init qb rb = Inr b"
  shows "\<exists>ab. nx_add a b = Inr ab
     \<and> nx_qnames ab = Inr (qa @ rev (remdups (rev (filter (\<lambda>q. q \<notin> set qa) qb))))
     \<and> (\<forall>q. nx_response ab q =
            (if q \<in> set qb \<and> rb q \<noteq> None then nx_response b q else nx_response a q))"
proof -
  from assms have a: "a = NXDOMAIN (Some (qa, ra))" "qa \<noteq> []" and b: "b = NXDOMAIN (Some (qb, rb))"
    by (auto simp: NXDOMAIN_init_def check_kwargs_def split: if_splits)
  obtain q' r' where l: "add_loop qb rb qa ra = (q', r')" by force
  have q': "q' = qa @ rev (remdups (rev (filter (\<lambda>q. q \<notin> set qa) qb)))"
    using add_loop_qnames [of qb rb qa ra] l by simp
  have r': "r' q = (if q \<in> set qb \<and> rb q \<noteq> None then rb q else ra q)" for q
    using add_loop_responses [of qb rb qa ra q] l by simp
  from q' a have ne: "q' \<noteq> []" by simp
  have "nx_add a b = Inr (NXDOMAIN (Some (q', r')))"
    using ne by (simp add: nx_add_def a b l NXDOMAIN_init_def check_kwargs_def)
  moreover have "nx_qnames (NXDOMAIN (Some (q', r'))) = Inr q'" by (simp add: nx_qnames_def)
  moreover have "nx_response (NXDOMAIN (Some (q', r'))) q =
      (if q \<in> set qb \<and> rb q \<noteq> None then nx_response b q else nx_response a q)" for q
    by (auto simp: nx_response_def a b r')
  ultimately show ?thesis using q' by simp
qed

theorem nx_add_merge_witness:
  "\<exists>ab. nx_add (NXDOMAIN (Some ([[''a'', '''']],
                   [[''a'', ''''] \<mapsto> \<lparr>rcode = 3, answer = [], authority = []\<rparr>])))
              (NXDOMAIN (Some ([[''b'', ''''], [''a'', '''']],
                   [[''b'', ''''] \<mapsto> \<lparr>rcode = 3, answer = [], authority = [] \<rparr>]))) = Inr ab
     \<and> nx_qnames ab = Inr [[''a'', ''''], [''b'', '''']]
     \<and> nx_response ab [''b'', ''''] = Inr \<lparr>rcode = 3, answer = [], authority = []\<rparr>
     \<and> nx_response ab [''a'', ''''] = Inr \<lparr>rcode = 3, answer = [], authority = []\<rparr>"
proof -
  let ?m = "\<lparr>rcode = 3, answer = [], authority = []\<rparr>"
  let ?a = "NXDOMAIN (Some ([[''a'', '''']], [[''a'', ''''] \<mapsto> ?m]))"
  let ?b = "NXDOMAIN (Some ([[''b'', ''''], [''a'', '''']], [[''b'', ''''] \<mapsto> ?m]))"
  have a: "NXDOMAIN_init [[''a'', '''']] [[''a'', ''''] \<mapsto> ?m] = Inr ?a"
    by (simp add: NXDOMAIN_init_def check_kwargs_def)
  have b: "NXDOMAIN_init [[''b'', ''''], [''a'', '''']] [[''b'', ''''] \<mapsto> ?m] = Inr ?b"
    by (simp add: NXDOMAIN_init_def check_kwargs_def)
  from nx_add_merge [OF a b] obtain ab where ab: "nx_add ?a ?b = Inr ab"
    "nx_qnames ab = Inr ([[''a'', '''']] @ rev (remdups (rev (filter (\<lambda>q. q \<notin> set [[''a'', '''']])
        [[''b'', ''''], [''a'', '''']]))))"
    "\<And>q. nx_response ab q = (if q \<in> set [[''b'', ''''], [''a'', '''']] \<and> [[''b'', ''''] \<mapsto> ?m] q \<noteq> None
         then nx_response ?b q else nx_response ?a q)"
    by blast
  from ab(2) have "nx_qnames ab = Inr [[''a'', ''''], [''b'', '''']]" by simp
  moreover from ab(3) [of "[''b'', '''']"] have "nx_response ab [''b'', ''''] = Inr ?m"
    by (simp add: nx_response_def)
  moreover from ab(3) [of "[''a'', '''']"] have "nx_response ab [''a'', ''''] = Inr ?m"
    by (simp add: nx_response_def)
  ultimately show ?thesis using ab(1) by blast
qed

text \<open>
  C6 as stated fails: a response of \<open>b\<close> for a name that is not one of the qnames of
  \<open>b\<close> is not taken over. Here \<open>b\<close> has a response for \<open>b.\<close> but lists only
  \<open>a.\<close>, and \<open>a + b\<close> has no response for \<open>b.\<close>.
\<close>

theorem nx_add_response_counterexample:
  "nx_add (NXDOMAIN (Some ([[''a'', '''']], map_of [])))
          (NXDOMAIN (Some ([[''a'', '''']], map_of [([''b'', ''''], \<lparr>rcode = 3, answer = [], authority = []\<rparr>)])))
     = Inr (NXDOMAIN (Some ([[''a'', '''']], map_of [])))
   \<and> nx_response (NXDOMAIN (Some ([[''a'', '''']], map_of [([''b'', ''''], \<lparr>rcode = 3, answer = [], authority = []\<rparr>)]))) [''b'', '''']
     = Inr \<lparr>rcode = 3, answer = [], authority = []\<rparr>
   \<and> nx_response (NXDOMAIN (Some ([[''a'', '''']], map_of []))) [''b'', ''''] = Inl KeyError"
  by (simp add: nx_add_def NXDOMAIN_init_def check_kwargs_def nx_response_def Let_def)

subsection \<open>The expiration of an answer\<close>

lemma chase_empty_answer:
  "answer resp = [] \<Longrightarrow> chase n resp rdc rdt False qn m = Inr (qn, m, None)"
  by (induction n) auto

lemma soa_walk_empty_authority:
  "authority resp = [] \<Longrightarrow> soa_walk resp rdc qn m = Inr m"
proof (induction resp rdc qn m rule: soa_walk.induct)
  case (1 resp rdc qn min_ttl)
  show ?case
  proof (cases "parent qn")
    case (Inl e)
    then have "e = NoParent" by (auto simp: parent_def split: if_splits)
    with Inl 1 show ?thesis by (simp add: soa_walk.simps [of resp rdc qn min_ttl])
  next
    case (Inr p)
    with 1 show ?thesis by (simp add: soa_walk.simps [of resp rdc qn min_ttl])
  qed
qed

text \<open>
  C1 fails on the code. For a response without records and \<open>raise_on_no_answer\<close> off,
  no TTL is folded in, \<open>min_ttl\<close> is still the marker \<open>-1\<close>, and the answer expires
  one second before it is made.
\<close>

theorem answer_expiration_before_creation:
  "\<exists>a clk'. Answer_init [''nodata'', ''example'', ''''] A IN
       \<lparr>rcode = NOERROR, answer = [], authority = []\<rparr> False (Some ''10.0.0.1'') (Some 53) clk
     = Inr (a, clk') \<and> rrset a = None \<and> expiration a = clk 0 - 1 \<and> expiration a < clk 0"
  by (simp add: Answer_init_def chase_empty_answer soa_walk_empty_authority time_time_def)

theorem answer_expiration_before_creation_witness:
  "\<exists>a clk'. Answer_init [''nodata'', ''example'', ''''] A IN
       \<lparr>rcode = NOERROR, answer = [], authority = []\<rparr> False (Some ''10.0.0.1'') (Some 53)
       (frozen_clock 1000)
     = Inr (a, clk') \<and> expiration a = 999"
  using answer_expiration_before_creation [of "frozen_clock 1000"]
  by (auto simp: frozen_clock_def)

text \<open>
  The marker is the only way into the past. When no TTL and no SOA minimum of the
  response is negative, an answer expires at most one second before it is made, and
  not before it is made when it has a record set.
\<close>

lemma fold_ttl_nonneg: "0 \<le> t \<Longrightarrow> m = - 1 \<or> 0 \<le> m \<Longrightarrow> 0 \<le> fold_ttl m t"
  by (auto simp: fold_ttl_def)

lemma find_rrset_mem: "find_rrset sec n c t = Inr rs \<Longrightarrow> rs \<in> set sec"
  by (induction sec) (auto split: if_splits)

lemma chase_ttl:
  assumes nn: "\<forall>rs \<in> set (answer resp). 0 \<le> ttl rs" and m: "m = - 1 \<or> 0 \<le> m"
    and ch: "chase n resp rdc rdt r qn m = Inr (q', m', rs)"
  shows "(m' = - 1 \<or> 0 \<le> m') \<and> (rs \<noteq> None \<longrightarrow> 0 \<le> m')"
proof -
  define P where "P k \<longleftrightarrow> k = - 1 \<or> 0 \<le> k" for k :: int
  define Q where "Q k x \<longleftrightarrow> (k = - 1 \<or> 0 \<le> k) \<and> (x \<noteq> None \<longrightarrow> 0 \<le> k)"
    for k :: int and x :: "rrset option"
  have step: "P (fold_ttl k (ttl x)) \<and> Q (fold_ttl k (ttl x)) (Some x)"
    if "P k" and "find_rrset (answer resp) q c t = Inr x" for k x q c t
    using that nn find_rrset_mem [OF that(2)] fold_ttl_nonneg [of "ttl x" k]
    by (auto simp: P_def Q_def)
  have base: "Q k None" if "P k" for k
    using that by (simp add: P_def Q_def)
  have "Q m' rs" if "P k" and "chase n resp rdc rdt r q k = Inr (q', m', rs)" for k q
    using that
  proof (induction n arbitrary: q k)
    case 0
    then show ?case using base by auto
  next
    case (Suc n)
    from Suc.prems(2) show ?case
      using Suc.IH Suc.prems(1) step
      by (auto split: sum.splits error.splits if_splits list.splits rdata.splits) blast+
  qed
  from this [of m qn] m ch show ?thesis by (simp add: P_def Q_def)
qed

lemma soa_walk_ttl:
  assumes w: "soa_walk resp rdc qn m = Inr m'"
    and nn: "\<forall>rs \<in> set (authority resp). 0 \<le> ttl rs \<and> (\<forall>rd \<in> set (rdatas rs). 0 \<le> minimum rd)"
    and m: "m = - 1 \<or> 0 \<le> m"
  shows "m' = - 1 \<or> 0 \<le> m'"
  using w nn m
proof (induction resp rdc qn m rule: soa_walk.induct)
  case (1 resp' rdc' q k)
  note prems = "1.prems"
  show ?case
  proof (cases "find_rrset (authority resp') q rdc' SOA")
    case (Inr x)
    from find_rrset_mem [OF Inr] prems(2)
    have x: "0 \<le> ttl x" "\<forall>rd \<in> set (rdatas x). 0 \<le> minimum rd" by auto
    from fold_ttl_nonneg [OF x(1) prems(3)] have f: "0 \<le> fold_ttl k (ttl x)" .
    from prems(1) Inr x(2) f show ?thesis
      by (auto simp: soa_walk.simps [of resp' rdc' q k] split: list.splits rdata.splits if_splits)
  next
    case (Inl e)
    from prems(1) Inl "1.IH" prems(2,3) show ?thesis
      by (auto simp: soa_walk.simps [of resp' rdc' q k] split: error.splits sum.splits)
  qed
qed

lemma answer_expiration_lower_bound:
  assumes "\<forall>rs \<in> set (answer resp). 0 \<le> ttl rs"
    and "\<forall>rs \<in> set (authority resp). 0 \<le> ttl rs \<and> (\<forall>rd \<in> set (rdatas rs). 0 \<le> minimum rd)"
    and "Answer_init qn rdt rdc resp r ns prt clk = Inr (a, clk')"
  shows "clk 0 - 1 \<le> expiration a \<and> (rrset a \<noteq> None \<longrightarrow> clk 0 \<le> expiration a)"
proof -
  from assms(3) obtain q' k rs where
    ch: "chase 15 resp rdc rdt r qn (- 1) = Inr (q', k, rs)"
    by (auto simp: Answer_init_def split: sum.splits)
  from chase_ttl [OF assms(1) _ ch]
  have k: "k = - 1 \<or> 0 \<le> k" "rs \<noteq> None \<longrightarrow> 0 \<le> k" by simp_all
  show ?thesis
  proof (cases rs)
    case None
    with assms(3) ch obtain k' where w: "soa_walk resp rdc q' k = Inr k'"
      and a: "expiration a = clk 0 + real_of_int k'" "rrset a = None"
      by (auto simp: Answer_init_def time_time_def split: sum.splits if_splits)
    from soa_walk_ttl [OF w assms(2) k(1)] a show ?thesis by auto
  next
    case (Some x)
    with assms(3) ch have "expiration a = clk 0 + real_of_int k"
      by (auto simp: Answer_init_def time_time_def split: sum.splits if_splits)
    with k Some show ?thesis by auto
  qed
qed

subsection \<open>The resolution state machine\<close>

text \<open>
  C2 fails on the code. With \<open>retry_with_tcp\<close> set, \<open>next_nameserver\<close> keeps the
  nameserver and the port, clears the flag and marks the attempt as TCP, but it returns
  a tuple of three, without a backoff; the driver loop, which unpacks four values,
  raises \<open>ValueError\<close>.
\<close>

theorem next_nameserver_retry_tuple:
  "next_nameserver (s\<lparr>nameserver := Some ns, retry_with_tcp := True\<rparr>)
     = Inr (Tuple3 ns (port s) True,
            s\<lparr>nameserver := Some ns, retry_with_tcp := False, tcp_attempt := True\<rparr>)
   \<and> run_resolve (Suc n) ev src sp lt start (Attempts rq)
        (d\<lparr>resolution := s\<lparr>nameserver := Some ns, retry_with_tcp := True\<rparr>\<rparr>)
     = Some (Inl ValueError)"
  by (simp add: next_nameserver_def)

theorem next_nameserver_retry_tuple_witness:
  "next_nameserver
     \<lparr>resolver = reset [''box'', ''example'', ''''] [''hmac-md5'', ''''],
      qnames_to_try = [[''host'', '''']], qnames = [], rdtype = A, rdclass = IN, tcp = False,
      raise_on_no_answer = True, nxdomain_responses = map_of [], qname = [''host'', ''''],
      nameservers = [''10.0.0.1''], current_nameservers = [], errors = [],
      nameserver = Some ''10.0.0.1'', port = 53, tcp_attempt = False, retry_with_tcp = True,
      request = None, backoff = 1 / 10\<rparr>
   = Inr (Tuple3 ''10.0.0.1'' 53 True,
     \<lparr>resolver = reset [''box'', ''example'', ''''] [''hmac-md5'', ''''],
      qnames_to_try = [[''host'', '''']], qnames = [], rdtype = A, rdclass = IN, tcp = False,
      raise_on_no_answer = True, nxdomain_responses = map_of [], qname = [''host'', ''''],
      nameservers = [''10.0.0.1''], current_nameservers = [], errors = [],
      nameserver = Some ''10.0.0.1'', port = 53, tcp_attempt = True, retry_with_tcp = False,
      request = None, backoff = 1 / 10\<rparr>)
   \<and> run_resolve (Suc 0) (stub_env (Inl Truncated) (Inl Truncated)) None 0 None 0 (Attempts None)
      \<lparr>resolution =
         \<lparr>resolver = reset [''box'', ''example'', ''''] [''hmac-md5'', ''''],
          qnames_to_try = [[''host'', '''']], qnames = [], rdtype = A, rdclass = IN, tcp = False,
          raise_on_no_answer = True, nxdomain_responses = map_of [], qname = [''host'', ''''],
          nameservers = [''10.0.0.1''], current_nameservers = [], errors = [],
          nameserver = Some ''10.0.0.1'', port = 53, tcp_attempt = False, retry_with_tcp = True,
          request = None, backoff = 1 / 10\<rparr>,
       the_clock = frozen_clock 0, io_count = 1, response_var = None\<rparr>
   = Some (Inl ValueError)"
  using next_nameserver_retry_tuple [where ns = "''10.0.0.1''" and n = 0
      and ev = "stub_env (Inl Truncated) (Inl Truncated)" and src = None and sp = 0 and lt = None
      and start = 0 and rq = None
      and s = "\<lparr>resolver = reset [''box'', ''example'', ''''] [''hmac-md5'', ''''],
      qnames_to_try = [[''host'', '''']], qnames = [], rdtype = A, rdclass = IN, tcp = False,
      raise_on_no_answer = True, nxdomain_responses = map_of [], qname = [''host'', ''''],
      nameservers = [''10.0.0.1''], current_nameservers = [], errors = [],
      nameserver = Some ''10.0.0.1'', port = 53, tcp_attempt = False, retry_with_tcp = True,
      request = None, backoff = 1 / 10\<rparr>"
      and d = "\<lparr>resolution =
         \<lparr>resolver = reset [''box'', ''example'', ''''] [''hmac-md5'', ''''],
          qnames_to_try = [[''host'', '''']], qnames = [], rdtype = A, rdclass = IN, tcp = False,
          raise_on_no_answer = True, nxdomain_responses = map_of [], qname = [''host'', ''''],
          nameservers = [''10.0.0.1''], current_nameservers = [], errors = [],
          nameserver = Some ''10.0.0.1'', port = 53, tcp_attempt = False, retry_with_tcp = True,
          request = None, backoff = 1 / 10\<rparr>,
       the_clock = frozen_clock 0, io_count = 1, response_var = None\<rparr>"]
  by simp

text \<open>
  C7. With an error and no response, when the current nameserver is in the pool,
  \<open>query_result\<close> appends the entry to \<open>errors\<close> and returns \<open>(None, False)\<close>;
  the nameserver is taken out of the pool (its first occurrence, so it is gone when the
  pool has no duplicates) for a wire-format error, a short read, a not-implemented error
  and a truncation over TCP; a truncation over UDP sets \<open>retry_with_tcp\<close>.
\<close>

theorem query_result_error_path:
  assumes "nameserver s = Some ns" and "ns \<in> set (nameservers s)"
  shows "\<exists>s'. query_result s None (Some e) clk = (Inr (None, False), s', clk)
      \<and> errors s' = errors s @ [(Some ns, tcp_attempt s, port s, Inl e, None)]
      \<and> nameservers s' =
          (if e = FormError \<or> e = EOFError \<or> e = NotImplementedError
              \<or> (e = Truncated \<and> tcp_attempt s)
           then remove1 ns (nameservers s) else nameservers s)
      \<and> retry_with_tcp s' = (retry_with_tcp s \<or> (e = Truncated \<and> \<not> tcp_attempt s))
      \<and> (distinct (nameservers s) \<and> nameservers s' \<noteq> nameservers s \<longrightarrow> ns \<notin> set (nameservers s'))"
  using assms by (auto simp: query_result_def list_remove_def Let_def remove1_idem)

theorem query_result_error_path_witness:
  "(\<exists>s'. query_result
     \<lparr>resolver = reset [''box'', ''example'', ''''] [''hmac-md5'', ''''],
      qnames_to_try = [[''host'', '''']], qnames = [], rdtype = A, rdclass = IN, tcp = False,
      raise_on_no_answer = True, nxdomain_responses = map_of [], qname = [''host'', ''''],
      nameservers = [''10.0.0.1''], current_nameservers = [], errors = [],
      nameserver = Some ''10.0.0.1'', port = 53, tcp_attempt = False, retry_with_tcp = False,
      request = None, backoff = 1 / 10\<rparr> None (Some Truncated) (frozen_clock 0)
      = (Inr (None, False), s', frozen_clock 0)
     \<and> errors s' = [(Some ''10.0.0.1'', False, 53, Inl Truncated, None)]
     \<and> nameservers s' = [''10.0.0.1''] \<and> retry_with_tcp s')
   \<and> (\<exists>s'. query_result
     \<lparr>resolver = reset [''box'', ''example'', ''''] [''hmac-md5'', ''''],
      qnames_to_try = [[''host'', '''']], qnames = [], rdtype = A, rdclass = IN, tcp = False,
      raise_on_no_answer = True, nxdomain_responses = map_of [], qname = [''host'', ''''],
      nameservers = [''10.0.0.1''], current_nameservers = [], errors = [],
      nameserver = Some ''10.0.0.1'', port = 53, tcp_attempt = False, retry_with_tcp = False,
      request = None, backoff = 1 / 10\<rparr> None (Some FormError) (frozen_clock 0)
      = (Inr (None, False), s', frozen_clock 0)
     \<and> errors s' = [(Some ''10.0.0.1'', False, 53, Inl FormError, None)]
     \<and> nameservers s' = [] \<and> \<not> retry_with_tcp s')"
proof -
  let ?s = "\<lparr>resolver = reset [''box'', ''example'', ''''] [''hmac-md5'', ''''],
      qnames_to_try = [[''host'', '''']], qnames = [], rdtype = A, rdclass = IN, tcp = False,
      raise_on_no_answer = True, nxdomain_responses = map_of [], qname = [''host'', ''''],
      nameservers = [''10.0.0.1''], current_nameservers = [], errors = [],
      nameserver = Some ''10.0.0.1'', port = 53, tcp_attempt = False, retry_with_tcp = False,
      request = None, backoff = 1 / 10\<rparr>"
  have ns: "nameserver ?s = Some ''10.0.0.1''" and pool: "''10.0.0.1'' \<in> set (nameservers ?s)"
    by simp_all
  from query_result_error_path [OF ns pool, of Truncated "frozen_clock 0"]
  have 1: "\<exists>s'. query_result ?s None (Some Truncated) (frozen_clock 0)
      = (Inr (None, False), s', frozen_clock 0)
     \<and> errors s' = [(Some ''10.0.0.1'', False, 53, Inl Truncated, None)]
     \<and> nameservers s' = [''10.0.0.1''] \<and> retry_with_tcp s'"
    by (simp, blast)
  from query_result_error_path [OF ns pool, of FormError "frozen_clock 0"]
  have 2: "\<exists>s'. query_result ?s None (Some FormError) (frozen_clock 0)
      = (Inr (None, False), s', frozen_clock 0)
     \<and> errors s' = [(Some ''10.0.0.1'', False, 53, Inl FormError, None)]
     \<and> nameservers s' = [] \<and> \<not> retry_with_tcp s'"
    by (simp, blast)
  from 1 2 show ?thesis by (rule conjI)
qed

subsection \<open>The driver loop\<close>

lemmas resolve_defs = resolve_def Resolution_init_def get_qnames_to_try_def concatenate_def
  is_absolute_def next_request_def start_request_def next_nameserver_def
  compute_timeout_def time_time_def send_query_def try_block_def try_body_def
  except_handler_def query_result_def truthy_def NXDOMAIN_init_def check_kwargs_def Let_def

text \<open>
  C8, as amended. A resolver with the search list \<open>[s1, s2]\<close>, \<open>ndots = 1\<close>, no
  cache and at least one nameserver looks up the relative name of one label \<open>l\<close>
  with search enabled, over UDP, and every query is answered with NXDOMAIN within the
  lifetime. Then \<open>resolve\<close> raises \<open>NXDOMAIN\<close> whose qnames are the two candidates
  \<open>l + s1\<close> and \<open>l + s2\<close>, in the order of the search list, and whose responses have
  an entry for each of the two: the one for \<open>l + s2\<close> is the reply to the first query
  and the one for \<open>l + s1\<close> the reply to the second, as the candidates are tried last
  first. Five rounds of the loops are enough. The name \<open>l + root\<close> is no candidate.
\<close>

theorem resolve_search_list_nxdomain:
  assumes r: "search r = [s1, s2]" "ndots r = Some 1" "cache r = None"
      "resolver_nameservers r = nss" "nss \<noteq> []" "\<not> rotate r"
    and srch: "(case sa of None \<Rightarrow> use_search_by_default r | Some b \<Rightarrow> b)"
    and l: "l \<noteq> []"
    and ev: "\<not> is_metatype ev rdt" "\<not> is_metaclass ev rdc" "is_address ev (last nss)"
    and udp: "\<And>i rq tmo p. udp_query ev i rq (last nss) tmo p src sp = Inr (reply i rq)"
      "\<And>i rq. rcode (reply i rq) = NXDOMAIN_rcode"
    and clk: "\<And>i. - 1 \<le> clk i - clk 0" "\<And>i. clk i - clk 0 < lifetime r"
  shows "resolve (Suc (Suc (Suc (Suc (Suc n))))) ev r [l] rdt rdc False src ra sp None sa clk
    = Some (Inl (NXDOMAIN_raised (NXDOMAIN (Some ([[l] @ s1, [l] @ s2],
        [[l] @ s2 \<mapsto> reply 0 (Some (make_request r ([l] @ s2) rdt rdc)),
         [l] @ s1 \<mapsto> reply 1 (Some (make_request r ([l] @ s1) rdt rdc))])))))"
proof -
  have t: "\<not> clk i - clk 0 < - 1" "\<not> lifetime r \<le> clk i - clk 0" for i
    using clk(1) [of i] clk(2) [of i] by auto
  show ?thesis
    using r srch l ev udp(2)
    by (simp add: resolve_defs udp(1) t NOERROR_def NXDOMAIN_rcode_def)
qed

theorem resolve_search_list_nxdomain_witness:
  "resolve (Suc (Suc (Suc (Suc (Suc 0)))))
     (stub_env (Inr \<lparr>rcode = NXDOMAIN_rcode, answer = [], authority = []\<rparr>) (Inl EOFError))
     ((reset [''box'', ''example'', ''''] [''hmac-md5'', ''''])
        \<lparr>resolver_nameservers := [''10.0.0.1'', ''10.0.0.2''],
         search := [[''corp'', ''example'', ''''], [''example'', '''']],
         use_search_by_default := True, ndots := Some 1\<rparr>)
     [''host''] A IN False None True 0 None None (frozen_clock 0)
   = Some (Inl (NXDOMAIN_raised (NXDOMAIN (Some
       ([[''host'', ''corp'', ''example'', ''''], [''host'', ''example'', '''']],
        [[''host'', ''example'', ''''] \<mapsto> \<lparr>rcode = NXDOMAIN_rcode, answer = [], authority = []\<rparr>,
         [''host'', ''corp'', ''example'', ''''] \<mapsto>
           \<lparr>rcode = NXDOMAIN_rcode, answer = [], authority = []\<rparr>])))))"
  using resolve_search_list_nxdomain [where n = 0
      and r = "(reset [''box'', ''example'', ''''] [''hmac-md5'', ''''])
        \<lparr>resolver_nameservers := [''10.0.0.1'', ''10.0.0.2''],
         search := [[''corp'', ''example'', ''''], [''example'', '''']],
         use_search_by_default := True, ndots := Some 1\<rparr>"
      and ?s1.0 = "[''corp'', ''example'', '''']" and ?s2.0 = "[''example'', '''']"
      and nss = "[''10.0.0.1'', ''10.0.0.2'']" and sa = None and l = "''host''"
      and ev = "stub_env (Inr \<lparr>rcode = NXDOMAIN_rcode, answer = [], authority = []\<rparr>) (Inl EOFError)"
      and rdt = A and rdc = IN and src = None and sp = 0
      and reply = "\<lambda>i rq. \<lparr>rcode = NXDOMAIN_rcode, answer = [], authority = []\<rparr>"
      and clk = "frozen_clock 0" and ra = True]
  by (simp add: reset_def stub_env_def frozen_clock_def)

text \<open>
  C8 as stated fails: for \<open>host\<close> with the search list \<open>corp.example.\<close>,
  \<open>example.\<close> the qnames of the \<open>NXDOMAIN\<close> raised are the two names
  \<open>host.corp.example.\<close> and \<open>host.example.\<close>; \<open>host.\<close> is not among them and has
  no response.
\<close>

theorem resolve_search_list_nxdomain_counterexample:
  "resolve 5
     (stub_env (Inr \<lparr>rcode = NXDOMAIN_rcode, answer = [], authority = []\<rparr>) (Inl EOFError))
     ((reset [''box'', ''example'', ''''] [''hmac-md5'', ''''])
        \<lparr>resolver_nameservers := [''10.0.0.1''],
         search := [[''corp'', ''example'', ''''], [''example'', '''']], ndots := Some 1\<rparr>)
     [''host''] A IN False None True 0 None (Some True) (frozen_clock 0)
   = Some (Inl (NXDOMAIN_raised (NXDOMAIN (Some
       ([[''host'', ''corp'', ''example'', ''''], [''host'', ''example'', '''']],
        map_of [([''host'', ''corp'', ''example'', ''''],
                  \<lparr>rcode = NXDOMAIN_rcode, answer = [], authority = []\<rparr>),
                ([''host'', ''example'', ''''],
                  \<lparr>rcode = NXDOMAIN_rcode, answer = [], authority = []\<rparr>)])))))
   \<and> nx_qnames (NXDOMAIN (Some
       ([[''host'', ''corp'', ''example'', ''''], [''host'', ''example'', '''']],
        map_of [([''host'', ''corp'', ''example'', ''''],
                  \<lparr>rcode = NXDOMAIN_rcode, answer = [], authority = []\<rparr>),
                ([''host'', ''example'', ''''],
                  \<lparr>rcode = NXDOMAIN_rcode, answer = [], authority = []\<rparr>)])))
     \<noteq> Inr [[''host'', ''corp'', ''example'', ''''], [''host'', ''example'', ''''], [''host'', '''']]
   \<and> nx_response (NXDOMAIN (Some
       ([[''host'', ''corp'', ''example'', ''''], [''host'', ''example'', '''']],
        map_of [([''host'', ''corp'', ''example'', ''''],
                  \<lparr>rcode = NXDOMAIN_rcode, answer = [], authority = []\<rparr>),
                ([''host'', ''example'', ''''],
                  \<lparr>rcode = NXDOMAIN_rcode, answer = [], authority = []\<rparr>)]))) [''host'', '''']
     = Inl KeyError"
  by (simp add: resolve_defs eval_nat_numeral reset_def stub_env_def frozen_clock_def
      NOERROR_def NXDOMAIN_rcode_def nx_qnames_def nx_response_def)

text \<open>
  The third scenario of the specification on the code: the only nameserver answers
  \<open>Truncated\<close> over UDP and would answer over TCP. The handler sets
  \<open>retry_with_tcp\<close>, the next call of \<open>next_nameserver\<close> returns three values, and
  \<open>resolve\<close> ends with \<open>ValueError\<close> before any TCP query is sent.
\<close>

lemma resolve_truncated_udp:
  "resolve 3
     (stub_env (Inl Truncated)
        (Inr \<lparr>rcode = NOERROR,
              answer = [\<lparr>rr_name = [''host'', ''''], rr_rdclass = IN, rr_rdtype = A, ttl = 300,
                         rdatas = [Other_rdata ''192.0.2.1'']\<rparr>],
              authority = []\<rparr>))
     ((reset [''box'', ''example'', ''''] [''hmac-md5'', ''''])
        \<lparr>resolver_nameservers := [''10.0.0.1'']\<rparr>)
     [''host'', ''''] A IN False None True 0 None None (frozen_clock 0)
   = Some (Inl ValueError)"
  by (simp add: resolve_defs eval_nat_numeral reset_def stub_env_def frozen_clock_def)

subsection \<open>The selected nameserver is in the pool\<close>

text \<open>
  The loops of \<open>resolve\<close> keep \<open>pool_ok\<close>: it holds for a new \<open>_Resolution\<close>,
  \<open>next_request\<close> keeps it, \<open>next_nameserver\<close> turns it into \<open>selected_ok\<close> when
  it selects a nameserver, and a round of the inner loop that starts from
  \<open>selected_ok\<close> ends in \<open>pool_ok\<close>. So whenever \<open>resolve\<close> calls \<open>query_result\<close>,
  the selected nameserver is in the pool, \<open>nameservers.remove\<close> finds it, and the
  handler \<open>except Exception\<close> never raises.
\<close>

lemma start_request_pool_ok: "pool_ok (fst (start_request ev s))"
  by (simp add: start_request_def pool_ok_def Let_def)

lemma mset_butlast_last: "xs \<noteq> [] \<Longrightarrow> add_mset (last xs) (mset (butlast xs)) = mset xs"
  by (cases xs rule: rev_cases) simp_all

lemma next_nameserver_selected_ok:
  assumes "pool_ok s" and "next_nameserver s = Inr (Tuple4 ns p t b, s')"
  shows "selected_ok s'"
  using assms
  by (auto simp: next_nameserver_def pool_ok_def selected_ok_def Let_def mset_butlast_last
      split: if_splits option.splits)

lemma selected_ok_in_pool:
  "selected_ok s \<Longrightarrow> \<exists>ns. nameserver s = Some ns \<and> ns \<in> set (nameservers s)"
  unfolding selected_ok_def
  by (metis insert_subset_eq_iff set_mset_mset)

lemma list_remove_mset:
  assumes "add_mset ns C \<subseteq># mset N" and "list_remove N (Some ns) = Inr N'"
  shows "C \<subseteq># mset N'"
proof -
  from assms(2) have N': "N' = remove1 ns N" and "ns \<in> set N"
    by (auto simp: list_remove_def split: if_splits)
  from assms(1) show ?thesis unfolding N' by (simp add: insert_subset_eq_iff)
qed

lemma add_mset_subD: "add_mset ns C \<subseteq># M \<Longrightarrow> C \<subseteq># M"
  by (metis mset_subset_eq_insertD subset_mset.less_imp_le)

lemma query_result_error_branch:
  assumes "selected_ok s" and "query_result s None (Some e) clk = (out, s', clk')"
  shows "case out of Inl e' \<Rightarrow> selected_ok s' | Inr r \<Rightarrow> pool_ok s'"
proof -
  from assms(1) obtain ns where ns: "nameserver s = Some ns"
    and sub: "add_mset ns (mset (current_nameservers s)) \<subseteq># mset (nameservers s)"
    unfolding selected_ok_def by blast
  note rm = list_remove_mset [OF sub]
  note w = add_mset_subD [OF sub]
  show ?thesis
    using assms(2) ns sub rm w
    by (auto simp: query_result_def pool_ok_def selected_ok_def Let_def
        split: if_splits sum.splits)
qed

lemma query_result_response_branch:
  assumes "selected_ok s" and "query_result s (Some m) None clk = (out, s', clk')"
  shows "case out of Inl e' \<Rightarrow> selected_ok s' | Inr r \<Rightarrow> pool_ok s'"
proof -
  from assms(1) obtain ns where ns: "nameserver s = Some ns"
    and sub: "add_mset ns (mset (current_nameservers s)) \<subseteq># mset (nameservers s)"
    unfolding selected_ok_def by blast
  note rm = list_remove_mset [OF sub]
  note w = add_mset_subD [OF sub]
  show ?thesis
    using assms(2) ns sub rm w
    by (auto simp: query_result_def pool_ok_def selected_ok_def Let_def
        split: if_splits sum.splits option.splits prod.splits)
qed

lemma query_result_keeps_pool:
  assumes "selected_ok s" and "query_result s resp ex clk = (out, s', clk')"
  shows "case out of Inl e' \<Rightarrow> selected_ok s' | Inr r \<Rightarrow> pool_ok s'"
proof (cases ex)
  case None
  show ?thesis
  proof (cases resp)
    case rn: None
    with None assms show ?thesis by (auto simp: query_result_def)
  next
    case (Some m)
    with None assms query_result_response_branch show ?thesis by simp
  qed
next
  case (Some e)
  show ?thesis
  proof (cases resp)
    case None
    with Some assms query_result_error_branch show ?thesis by simp
  next
    case sm: (Some m)
    with Some assms show ?thesis by (auto simp: query_result_def)
  qed
qed

lemma Resolution_init_pool_ok:
  "Resolution_init ev r qn rdt rdc t ra sa = Inr s \<Longrightarrow> pool_ok s"
  by (auto simp: Resolution_init_def pool_ok_def split: if_splits sum.splits)

lemma next_request_pool_ok:
  assumes "pool_ok s" and "next_request ev s clk = Inr (r, s', clk')"
  shows "pool_ok s'"
  using assms
  by (auto simp: next_request_def start_request_def pool_ok_def Let_def
      split: if_splits sum.splits option.splits prod.splits)

lemma except_handler_returns:
  assumes "selected_ok (resolution d)"
  shows "\<exists>d2. except_handler ex d = Inr (None, False, d2) \<and> pool_ok (resolution d2)"
proof -
  from assms obtain ns where ns: "nameserver (resolution d) = Some ns"
    and sub: "add_mset ns (mset (current_nameservers (resolution d)))
                \<subseteq># mset (nameservers (resolution d))"
    unfolding selected_ok_def by blast
  from sub have mem: "ns \<in> set (nameservers (resolution d))"
    by (metis insert_subset_eq_iff set_mset_mset)
  from sub have rm: "mset (current_nameservers (resolution d))
      \<subseteq># mset (remove1 ns (nameservers (resolution d)))"
    by (simp add: insert_subset_eq_iff)
  note w = add_mset_subD [OF sub]
  show ?thesis
    using ns mem rm w
    by (simp add: except_handler_def query_result_def list_remove_def pool_ok_def Let_def)
qed

lemma try_body_keeps_pool:
  assumes "selected_ok (resolution d)" and "try_body d = Inr (a, done, d2)"
  shows "pool_ok (resolution d2)"
proof (cases "query_result (resolution d) (response_var d) None (the_clock d)")
  case (fields out s clk)
  from query_result_keeps_pool [OF assms(1) fields]
  have k: "case out of Inl e' \<Rightarrow> selected_ok s | Inr r \<Rightarrow> pool_ok s" .
  show ?thesis
  proof (cases out)
    case (Inl e)
    with k have "selected_ok (resolution (d\<lparr>resolution := s, the_clock := clk\<rparr>))" by simp
    from except_handler_returns [OF this, of e] assms(2) fields Inl
    show ?thesis by (auto simp: try_body_def)
  next
    case (Inr r)
    with k assms(2) fields show ?thesis by (auto simp: try_body_def split: prod.splits)
  qed
qed

lemma try_block_keeps_pool:
  assumes "selected_ok (resolution d)" and "try_block outcome d = Inr (a, done, d2)"
  shows "pool_ok (resolution d2)"
proof (cases outcome)
  case Skip
  with assms show ?thesis by (auto simp: try_block_def selected_ok_def pool_ok_def dest: add_mset_subD)
next
  case (Raised e)
  with except_handler_returns [OF assms(1), of e] assms(2) show ?thesis
    by (auto simp: try_block_def)
next
  case (Got m)
  from assms(1) have "selected_ok (resolution (d\<lparr>response_var := Some m\<rparr>))" by simp
  from try_body_keeps_pool [OF this] Got assms(2) show ?thesis by (simp add: try_block_def)
next
  case Unchanged
  show ?thesis
  proof (cases "response_var d")
    case None
    with Unchanged except_handler_returns [OF assms(1), of UnboundLocalError] assms(2)
    show ?thesis by (auto simp: try_block_def)
  next
    case (Some m)
    with Unchanged try_body_keeps_pool [OF assms(1)] assms(2) show ?thesis
      by (simp add: try_block_def)
  qed
qed

subsection \<open>The caches\<close>

lemma del_keys_filter:
  "distinct ks \<Longrightarrow> set ks \<subseteq> fst ` set d \<Longrightarrow>
   del_keys ks d = Inr (filter (\<lambda>kv. fst kv \<notin> set ks) d)"
proof (induction ks arbitrary: d)
  case Nil
  then show ?case by simp
next
  case (Cons k ks)
  from Cons.prems have k: "map_of d k \<noteq> None"
    by (simp add: map_of_eq_None_iff)
  have del: "AList.delete k d = filter (\<lambda>kv. fst kv \<noteq> k) d"
    by (induction d) auto
  from Cons.prems have "set ks \<subseteq> fst ` set (filter (\<lambda>kv. fst kv \<noteq> k) d)"
    by force
  with Cons.prems have "del_keys ks (filter (\<lambda>kv. fst kv \<noteq> k) d)
      = Inr (filter (\<lambda>kv. fst kv \<notin> set ks) (filter (\<lambda>kv. fst kv \<noteq> k) d))"
    by (intro Cons.IH) simp_all
  moreover have "filter (\<lambda>kv. fst kv \<notin> set ks) (filter (\<lambda>kv. fst kv \<noteq> k) d)
      = filter (\<lambda>kv. fst kv \<notin> set (k # ks)) d"
    by (auto intro: filter_cong)
  ultimately show ?case using k by (simp add: dict_del_def del del: filter_filter)
qed

lemma map_of_filter_keys:
  "map_of (filter (\<lambda>kv. fst kv \<notin> S) d) k = (if k \<in> S then None else map_of d k)"
  by (induction d) auto

lemma maybe_clean_result:
  assumes "distinct (map fst (data c))"
  shows "\<exists>c1 S. maybe_clean c clk =
           Inr (c1, if next_cleaning c \<le> clk 0 then (\<lambda>n. clk (Suc (Suc n))) else (\<lambda>n. clk (Suc n)))
      \<and> data c1 = (if next_cleaning c \<le> clk 0
                   then filter (\<lambda>kv. fst kv \<notin> S) (data c) else data c)
      \<and> S = fst ` {kv \<in> set (data c). expiration (snd kv) \<le> clk 0}"
proof -
  let ?ks = "map fst (filter (\<lambda>(k, v). expiration v \<le> clk 0) (data c))"
  have "distinct ?ks" using assms by (rule distinct_map_filter)
  moreover have "set ?ks \<subseteq> fst ` set (data c)" by auto
  ultimately have "del_keys ?ks (data c) = Inr (filter (\<lambda>kv. fst kv \<notin> set ?ks) (data c))"
    by (rule del_keys_filter)
  moreover have "set ?ks = fst ` {kv \<in> set (data c). expiration (snd kv) \<le> clk 0}"
    by (auto simp: image_iff split: prod.splits)
  ultimately show ?thesis
    by (simp add: maybe_clean_def time_time_def Let_def)
qed

lemma maybe_clean_clock:
  "maybe_clean c clk = Inr (c1, clk1) \<Longrightarrow>
   clk1 = (\<lambda>n. clk (Suc n)) \<or> clk1 = (\<lambda>n. clk (Suc (Suc n)))"
  by (auto simp: maybe_clean_def time_time_def Let_def split: if_splits sum.splits)

lemma unlink_node_key [simp]: "node_key (unlink h a x) = node_key (h x)"
  by (simp add: unlink_def Let_def)

lemma unlink_node_value [simp]: "node_value (unlink h a x) = node_value (h x)"
  by (simp add: unlink_def Let_def)

lemma map_of_delete_same: "map_of (AList.delete k d) k = None"
  by (simp add: AList.delete_conv')

lemma Cache_get_fresh:
  assumes g: "Cache_get c k clk = Inr (Some v, c', clk')"
  shows "\<exists>i. clk i < expiration v \<and> clk' = (\<lambda>n. clk (Suc i + n))"
proof -
  from g obtain c1 clk1 where m: "maybe_clean c clk = Inr (c1, clk1)"
    and fresh: "clk1 0 < expiration v" and rest: "clk' = (\<lambda>n. clk1 (Suc n))"
    by (auto simp: Cache_get_def time_time_def Let_def split: sum.splits option.splits if_splits)
  from maybe_clean_clock [OF m] fresh rest show ?thesis
    by (elim disjE) (rule exI [of _ "Suc 0"], simp, rule exI [of _ "Suc (Suc 0)"], simp)
qed

lemma LRUCache_get_fresh:
  "LRUCache_get l k clk = Inr (Some v, l', clk') \<Longrightarrow>
   clk 0 < expiration v \<and> clk' = (\<lambda>n. clk (Suc 0 + n))"
  by (auto simp: LRUCache_get_def time_time_def Let_def
      split: sum.splits option.splits if_splits)

lemma Cache_get_stale:
  assumes "distinct (map fst (data c))" and "map_of (data c) k = Some v"
    and "\<forall>n. expiration v \<le> clk n"
  shows "\<exists>c1 clk1. Cache_get c k clk = Inr (None, c1, clk1)"
proof -
  from maybe_clean_result [OF assms(1), of clk] obtain c1 S clk1 where
    m: "maybe_clean c clk = Inr (c1, clk1)"
    and clk1: "clk1 = (if next_cleaning c \<le> clk 0 then (\<lambda>n. clk (Suc (Suc n))) else (\<lambda>n. clk (Suc n)))"
    and d: "data c1 = (if next_cleaning c \<le> clk 0
                   then filter (\<lambda>kv. fst kv \<notin> S) (data c) else data c)"
    by blast
  from d assms(2) have "map_of (data c1) k = None \<or> map_of (data c1) k = Some v"
    by (auto simp: map_of_filter_keys)
  moreover from assms(3) clk1 have "expiration v \<le> clk1 0" by simp
  ultimately show ?thesis
    using m by (auto simp: Cache_get_def time_time_def Let_def)
qed

lemma LRUCache_get_stale:
  assumes "map_of (lru_data l) k = Some a" and "node_key (heap l a) = Some k"
    and "node_value (heap l a) = Some v" and "expiration v \<le> clk 0"
  shows "\<exists>l1 clk1. LRUCache_get l k clk = Inr (None, l1, clk1) \<and> map_of (lru_data l1) k = None"
  using assms
  by (simp add: LRUCache_get_def time_time_def Let_def del_node_key_def dict_del_def
      map_of_delete_same)

lemma maybe_clean_removes_stale:
  assumes "distinct (map fst (data c))" and "map_of (data c) k = Some v"
    and "next_cleaning c \<le> clk 0" and "expiration v \<le> clk 0"
  shows "\<exists>c1 clk1. maybe_clean c clk = Inr (c1, clk1) \<and> map_of (data c1) k = None"
proof -
  from assms(2) have "(k, v) \<in> set (data c)" by (rule map_of_SomeD)
  with assms(4) have "(k, v) \<in> {kv \<in> set (data c). expiration (snd kv) \<le> clk 0}" by simp
  then have "fst (k, v) \<in> fst ` {kv \<in> set (data c). expiration (snd kv) \<le> clk 0}"
    by (rule imageI)
  then have k: "k \<in> fst ` {kv \<in> set (data c). expiration (snd kv) \<le> clk 0}" by simp
  from maybe_clean_result [OF assms(1), of clk] assms(3) obtain c1 clk1 where
    "maybe_clean c clk = Inr (c1, clk1)"
    "data c1 = filter (\<lambda>kv. fst kv \<notin> fst ` {kv \<in> set (data c). expiration (snd kv) \<le> clk 0}) (data c)"
    by auto
  with k show ?thesis by (simp add: map_of_filter_keys)
qed

lemma LRUCache_put_fresh_cache:
  "\<exists>l. LRUCache_put (LRUCache_init 2) k v = Inr l \<and> map_of (lru_data l) k = Some 1
     \<and> node_key (heap l 1) = Some k \<and> node_value (heap l 1) = Some v"
  by (simp add: LRUCache_put_def LRUCache_init_def set_max_size_def new_node_def
      evict.simps link_after_def Let_def)

text \<open>
  C4. An answer that \<open>get\<close> returns expires after the time that \<open>get\<close> read for its
  freshness check, which is the last reading it took from the clock; and a stored entry
  that is stale at all readings of the lookup makes \<open>get\<close> return \<open>None\<close>. Both hold
  for the simple cache and for the LRU cache.
\<close>

theorem cache_get_never_stale:
  "(Cache_get c k clk = Inr (Some v, c', clk') \<longrightarrow>
      (\<exists>i. clk i < expiration v \<and> clk' = (\<lambda>n. clk (Suc i + n))))
   \<and> (LRUCache_get l k clk = Inr (Some v, l', clk') \<longrightarrow>
      clk 0 < expiration v \<and> clk' = (\<lambda>n. clk (Suc 0 + n)))
   \<and> (distinct (map fst (data c)) \<and> map_of (data c) k = Some v \<and> (\<forall>n. expiration v \<le> clk n) \<longrightarrow>
      (\<exists>c1 clk1. Cache_get c k clk = Inr (None, c1, clk1)))
   \<and> (map_of (lru_data l) k = Some a \<and> node_key (heap l a) = Some k
        \<and> node_value (heap l a) = Some v \<and> expiration v \<le> clk 0 \<longrightarrow>
      (\<exists>l1 clk1. LRUCache_get l k clk = Inr (None, l1, clk1)))"
proof -
  have 1: "Cache_get c k clk = Inr (Some v, c', clk') \<longrightarrow>
      (\<exists>i. clk i < expiration v \<and> clk' = (\<lambda>n. clk (Suc i + n)))"
    using Cache_get_fresh by blast
  have 2: "LRUCache_get l k clk = Inr (Some v, l', clk') \<longrightarrow>
      clk 0 < expiration v \<and> clk' = (\<lambda>n. clk (Suc 0 + n))"
    using LRUCache_get_fresh by blast
  have 3: "distinct (map fst (data c)) \<and> map_of (data c) k = Some v \<and> (\<forall>n. expiration v \<le> clk n) \<longrightarrow>
      (\<exists>c1 clk1. Cache_get c k clk = Inr (None, c1, clk1))"
    using Cache_get_stale by blast
  have 4: "map_of (lru_data l) k = Some a \<and> node_key (heap l a) = Some k
        \<and> node_value (heap l a) = Some v \<and> expiration v \<le> clk 0 \<longrightarrow>
      (\<exists>l1 clk1. LRUCache_get l k clk = Inr (None, l1, clk1))"
    using LRUCache_get_stale by blast
  show ?thesis by (intro conjI 1 2 3 4)
qed

theorem cache_get_never_stale_witness:
  "Cache_get
      \<lparr>data = [(([''a'', ''''], A, IN),
          \<lparr>ans_qname = [''a'', ''''], ans_rdtype = A, ans_rdclass = IN,
           ans_response = \<lparr>rcode = NOERROR, answer = [], authority = []\<rparr>,
           ans_nameserver = None, ans_port = None, canonical_name = [''a'', ''''],
           rrset = None, expiration = 200\<rparr>)],
       cleaning_interval = 300, next_cleaning = 300\<rparr>
      ([''a'', ''''], A, IN) (frozen_clock 100)
    = Inr (Some \<lparr>ans_qname = [''a'', ''''], ans_rdtype = A, ans_rdclass = IN,
           ans_response = \<lparr>rcode = NOERROR, answer = [], authority = []\<rparr>,
           ans_nameserver = None, ans_port = None, canonical_name = [''a'', ''''],
           rrset = None, expiration = 200\<rparr>,
       \<lparr>data = [(([''a'', ''''], A, IN),
          \<lparr>ans_qname = [''a'', ''''], ans_rdtype = A, ans_rdclass = IN,
           ans_response = \<lparr>rcode = NOERROR, answer = [], authority = []\<rparr>,
           ans_nameserver = None, ans_port = None, canonical_name = [''a'', ''''],
           rrset = None, expiration = 200\<rparr>)],
       cleaning_interval = 300, next_cleaning = 300\<rparr>, frozen_clock 100)
   \<and> (\<exists>i. frozen_clock 100 i < 200)
   \<and> (\<exists>c1 clk1. Cache_get
      \<lparr>data = [(([''a'', ''''], A, IN),
          \<lparr>ans_qname = [''a'', ''''], ans_rdtype = A, ans_rdclass = IN,
           ans_response = \<lparr>rcode = NOERROR, answer = [], authority = []\<rparr>,
           ans_nameserver = None, ans_port = None, canonical_name = [''a'', ''''],
           rrset = None, expiration = 200\<rparr>)],
       cleaning_interval = 300, next_cleaning = 300\<rparr>
      ([''a'', ''''], A, IN) (frozen_clock 250) = Inr (None, c1, clk1))
   \<and> (\<exists>l l1 clk1. LRUCache_put (LRUCache_init 2) ([''a'', ''''], A, IN)
          \<lparr>ans_qname = [''a'', ''''], ans_rdtype = A, ans_rdclass = IN,
           ans_response = \<lparr>rcode = NOERROR, answer = [], authority = []\<rparr>,
           ans_nameserver = None, ans_port = None, canonical_name = [''a'', ''''],
           rrset = None, expiration = 200\<rparr> = Inr l
        \<and> LRUCache_get l ([''a'', ''''], A, IN) (frozen_clock 250) = Inr (None, l1, clk1))"
proof -
  let ?k = "([''a'', ''''], A, IN)"
  let ?v = "\<lparr>ans_qname = [''a'', ''''], ans_rdtype = A, ans_rdclass = IN,
           ans_response = \<lparr>rcode = NOERROR, answer = [], authority = []\<rparr>,
           ans_nameserver = None, ans_port = None, canonical_name = [''a'', ''''],
           rrset = None, expiration = 200\<rparr>"
  let ?c = "\<lparr>data = [(?k, ?v)], cleaning_interval = 300, next_cleaning = 300\<rparr>"
  obtain l where l: "LRUCache_put (LRUCache_init 2) ?k ?v = Inr l"
    "map_of (lru_data l) ?k = Some 1" "node_key (heap l 1) = Some ?k"
    "node_value (heap l 1) = Some ?v"
    using LRUCache_put_fresh_cache [of ?k ?v] by blast
  have g: "Cache_get ?c ?k (frozen_clock 100) = Inr (Some ?v, ?c, frozen_clock 100)"
    by (simp add: Cache_get_def maybe_clean_def time_time_def frozen_clock_def)
  note t = cache_get_never_stale [where c = ?c and k = ?k and v = ?v and c' = ?c
      and clk' = "frozen_clock 100" and l = l and l' = l and a = 1]
  from t [where clk = "frozen_clock 100"] g have 1: "\<exists>i. frozen_clock 100 i < 200"
    by auto
  from t [where clk = "frozen_clock 250"]
  have 2: "\<exists>c1 clk1. Cache_get ?c ?k (frozen_clock 250) = Inr (None, c1, clk1)"
    by (simp add: frozen_clock_def)
  from t [where clk = "frozen_clock 250"] l
  have 3: "\<exists>l1 clk1. LRUCache_get l ?k (frozen_clock 250) = Inr (None, l1, clk1)"
    by (simp add: frozen_clock_def)
  from g 1 2 3 l(1) show ?thesis by blast
qed

text \<open>
  C10. In the simple cache, a \<open>get\<close> that finds a stale entry before the cleaning
  deadline returns \<open>None\<close> and leaves the cache as it is; so does a \<open>put\<close> of
  another key for that entry. A cleaning pass removes the entry, and so does \<open>flush\<close>,
  with the key or without. In the LRU cache the \<open>get\<close> itself deletes the entry.
\<close>

theorem stale_entry_stays_until_cleaning:
  "(map_of (data c) k = Some v \<and> clk 0 < next_cleaning c \<and> expiration v \<le> clk 1 \<longrightarrow>
      Cache_get c k clk = Inr (None, c, (\<lambda>n. clk (Suc (Suc n)))))
   \<and> (clk 0 < next_cleaning c \<and> k' \<noteq> k \<longrightarrow>
      (\<exists>c1 clk1. Cache_put c k' v' clk = Inr (c1, clk1) \<and> map_of (data c1) k = map_of (data c) k))
   \<and> (distinct (map fst (data c)) \<and> map_of (data c) k = Some v \<and> next_cleaning c \<le> clk 0
        \<and> expiration v \<le> clk 0 \<longrightarrow>
      (\<exists>c1 clk1. maybe_clean c clk = Inr (c1, clk1) \<and> map_of (data c1) k = None))
   \<and> (\<exists>c1 clk1. Cache_flush c (Some k) clk = Inr (c1, clk1) \<and> map_of (data c1) k = None)
   \<and> (\<exists>c1 clk1. Cache_flush c None clk = Inr (c1, clk1) \<and> data c1 = [])
   \<and> (map_of (lru_data l) k = Some a \<and> node_key (heap l a) = Some k
        \<and> node_value (heap l a) = Some v \<and> expiration v \<le> clk 0 \<longrightarrow>
      (\<exists>l1 clk1. LRUCache_get l k clk = Inr (None, l1, clk1) \<and> map_of (lru_data l1) k = None))"
proof -
  have 1: "map_of (data c) k = Some v \<and> clk 0 < next_cleaning c \<and> expiration v \<le> clk 1 \<longrightarrow>
      Cache_get c k clk = Inr (None, c, (\<lambda>n. clk (Suc (Suc n))))"
    by (simp add: Cache_get_def maybe_clean_def time_time_def Let_def)
  have 2: "clk 0 < next_cleaning c \<and> k' \<noteq> k \<longrightarrow>
      (\<exists>c1 clk1. Cache_put c k' v' clk = Inr (c1, clk1) \<and> map_of (data c1) k = map_of (data c) k)"
    by (auto simp: Cache_put_def maybe_clean_def time_time_def Let_def AList.update_conv')
  have 3: "distinct (map fst (data c)) \<and> map_of (data c) k = Some v \<and> next_cleaning c \<le> clk 0
        \<and> expiration v \<le> clk 0 \<longrightarrow>
      (\<exists>c1 clk1. maybe_clean c clk = Inr (c1, clk1) \<and> map_of (data c1) k = None)"
    using maybe_clean_removes_stale by blast
  have 4: "\<exists>c1 clk1. Cache_flush c (Some k) clk = Inr (c1, clk1) \<and> map_of (data c1) k = None"
    by (auto simp: Cache_flush_def dict_del_def map_of_delete_same)
  have 5: "\<exists>c1 clk1. Cache_flush c None clk = Inr (c1, clk1) \<and> data c1 = []"
    by (simp add: Cache_flush_def time_time_def)
  have 6: "map_of (lru_data l) k = Some a \<and> node_key (heap l a) = Some k
        \<and> node_value (heap l a) = Some v \<and> expiration v \<le> clk 0 \<longrightarrow>
      (\<exists>l1 clk1. LRUCache_get l k clk = Inr (None, l1, clk1) \<and> map_of (lru_data l1) k = None)"
    using LRUCache_get_stale by blast
  show ?thesis by (intro conjI 1 2 3 4 5 6)
qed

theorem stale_entry_stays_until_cleaning_witness:
  "Cache_get
      \<lparr>data = [(([''a'', ''''], A, IN),
          \<lparr>ans_qname = [''a'', ''''], ans_rdtype = A, ans_rdclass = IN,
           ans_response = \<lparr>rcode = NOERROR, answer = [], authority = []\<rparr>,
           ans_nameserver = None, ans_port = None, canonical_name = [''a'', ''''],
           rrset = None, expiration = 50\<rparr>)],
       cleaning_interval = 300, next_cleaning = 300\<rparr>
      ([''a'', ''''], A, IN) (frozen_clock 100)
    = Inr (None,
       \<lparr>data = [(([''a'', ''''], A, IN),
          \<lparr>ans_qname = [''a'', ''''], ans_rdtype = A, ans_rdclass = IN,
           ans_response = \<lparr>rcode = NOERROR, answer = [], authority = []\<rparr>,
           ans_nameserver = None, ans_port = None, canonical_name = [''a'', ''''],
           rrset = None, expiration = 50\<rparr>)],
       cleaning_interval = 300, next_cleaning = 300\<rparr>, frozen_clock 100)
   \<and> (\<exists>c1 clk1. maybe_clean
      \<lparr>data = [(([''a'', ''''], A, IN),
          \<lparr>ans_qname = [''a'', ''''], ans_rdtype = A, ans_rdclass = IN,
           ans_response = \<lparr>rcode = NOERROR, answer = [], authority = []\<rparr>,
           ans_nameserver = None, ans_port = None, canonical_name = [''a'', ''''],
           rrset = None, expiration = 50\<rparr>)],
       cleaning_interval = 300, next_cleaning = 300\<rparr> (frozen_clock 400) = Inr (c1, clk1)
      \<and> map_of (data c1) ([''a'', ''''], A, IN) = None)
   \<and> (\<exists>l l1 clk1. LRUCache_put (LRUCache_init 2) ([''a'', ''''], A, IN)
          \<lparr>ans_qname = [''a'', ''''], ans_rdtype = A, ans_rdclass = IN,
           ans_response = \<lparr>rcode = NOERROR, answer = [], authority = []\<rparr>,
           ans_nameserver = None, ans_port = None, canonical_name = [''a'', ''''],
           rrset = None, expiration = 50\<rparr> = Inr l
        \<and> LRUCache_get l ([''a'', ''''], A, IN) (frozen_clock 100) = Inr (None, l1, clk1)
        \<and> map_of (lru_data l1) ([''a'', ''''], A, IN) = None)"
proof -
  let ?k = "([''a'', ''''], A, IN)"
  let ?v = "\<lparr>ans_qname = [''a'', ''''], ans_rdtype = A, ans_rdclass = IN,
           ans_response = \<lparr>rcode = NOERROR, answer = [], authority = []\<rparr>,
           ans_nameserver = None, ans_port = None, canonical_name = [''a'', ''''],
           rrset = None, expiration = 50\<rparr>"
  let ?c = "\<lparr>data = [(?k, ?v)], cleaning_interval = 300, next_cleaning = 300\<rparr>"
  obtain l where l: "LRUCache_put (LRUCache_init 2) ?k ?v = Inr l"
    "map_of (lru_data l) ?k = Some 1" "node_key (heap l 1) = Some ?k"
    "node_value (heap l 1) = Some ?v"
    using LRUCache_put_fresh_cache [of ?k ?v] by blast
  note t = stale_entry_stays_until_cleaning [where c = ?c and k = ?k and v = ?v
      and k' = "([''b'', ''''], A, IN)" and v' = ?v and l = l and a = 1]
  from t [where clk = "frozen_clock 100"]
  have 1: "Cache_get ?c ?k (frozen_clock 100) = Inr (None, ?c, frozen_clock 100)"
    by (simp add: frozen_clock_def)
  from t [where clk = "frozen_clock 400"]
  have 2: "\<exists>c1 clk1. maybe_clean ?c (frozen_clock 400) = Inr (c1, clk1) \<and> map_of (data c1) ?k = None"
    by (simp add: frozen_clock_def)
  from t [where clk = "frozen_clock 100"] l
  have 3: "\<exists>l1 clk1. LRUCache_get l ?k (frozen_clock 100) = Inr (None, l1, clk1)
      \<and> map_of (lru_data l1) ?k = None"
    by (simp add: frozen_clock_def)
  from 1 2 3 l(1) show ?thesis by blast
qed

subsection \<open>The bound and the eviction order of the LRU cache\<close>

lemma cyc_parts:
  assumes "cyc f a (ys @ x # zs)"
  shows "map f (a # ys) = ys @ [x]" and "f x = hd (zs @ [a])" and "map f zs = tl (zs @ [a])"
proof -
  from assms have "map f (a # ys) @ (f x # map f zs) = (ys @ [x]) @ (zs @ [a])"
    by (simp add: cyc_def)
  moreover have "length (map f (a # ys)) = length (ys @ [x])" by simp
  ultimately have "map f (a # ys) = ys @ [x] \<and> f x # map f zs = zs @ [a]"
    using append_eq_append_conv [of "map f (a # ys)" "ys @ [x]" "f x # map f zs" "zs @ [a]"]
    by blast
  then have 1: "map f (a # ys) = ys @ [x]" and 2: "f x # map f zs = zs @ [a]"
    by blast+
  from 1 show "map f (a # ys) = ys @ [x]" .
  from 2 have "hd (f x # map f zs) = hd (zs @ [a])" "tl (f x # map f zs) = tl (zs @ [a])"
    by simp_all
  then show "f x = hd (zs @ [a])" and "map f zs = tl (zs @ [a])" by simp_all
qed

lemma map_upd_last:
  assumes "distinct (xs @ [p])"
  shows "map (f(p := n)) (xs @ [p]) = butlast (map f (xs @ [p])) @ [n]"
proof -
  from assms have "p \<notin> set xs" by simp
  then have "map (f(p := n)) xs = map f xs" by (intro map_cong) auto
  then show ?thesis by simp
qed

lemma snoc_last: "a # ys = butlast (a # ys) @ [last (a # ys)]"
  by (rule append_butlast_last_id [symmetric]) simp

lemma cyc_remove:
  assumes d: "distinct (a # ys @ x # zs)" and c: "cyc f a (ys @ x # zs)"
  shows "cyc (f(last (a # ys) := hd (zs @ [a]))) a (ys @ zs)"
proof -
  define p where "p = last (a # ys)"
  define n where "n = hd (zs @ [a])"
  define us where "us = butlast (a # ys)"
  have us: "a # ys = us @ [p]" unfolding us_def p_def by (rule snoc_last)
  from d have "distinct (a # ys)" by simp
  with us have dus: "distinct (us @ [p])" by simp
  have "p \<in> set (a # ys)" unfolding p_def by (rule last_in_set) simp
  with d have pz: "p \<notin> set zs" by auto
  have "map (f(p := n)) (a # ys) = butlast (map f (a # ys)) @ [n]"
    using map_upd_last [OF dus, of f n] us by simp
  also have "\<dots> = ys @ [n]" using cyc_parts(1) [OF c] by simp
  finally have 1: "map (f(p := n)) (a # ys) = ys @ [n]" .
  from pz have "map (f(p := n)) zs = map f zs" by (intro map_cong) auto
  with cyc_parts(3) [OF c] have 2: "map (f(p := n)) zs = tl (zs @ [a])" by simp
  have "map (f(p := n)) (a # ys @ zs) = map (f(p := n)) (a # ys) @ map (f(p := n)) zs"
    by simp
  also have "\<dots> = ys @ [n] @ tl (zs @ [a])" unfolding 1 2 by simp
  also have "\<dots> = (ys @ zs) @ [a]" unfolding n_def by (cases zs) simp_all
  finally show ?thesis unfolding cyc_def p_def n_def .
qed

lemma cyc_insert_front:
  assumes d: "distinct (a # xs)" and x: "x \<notin> set (a # xs)" and c: "cyc f a xs"
  shows "cyc (f(x := hd (xs @ [a]), a := x)) a (x # xs)"
proof -
  define g where "g = f(x := hd (xs @ [a]), a := x)"
  from c have "f a # map f xs = xs @ [a]" by (simp add: cyc_def)
  then have "tl (f a # map f xs) = tl (xs @ [a])" by simp
  then have fx: "map f xs = tl (xs @ [a])" by simp
  from d x have "map g xs = map f xs" unfolding g_def by (intro map_cong) auto
  with fx have gx: "map g xs = tl (xs @ [a])" by simp
  from x have ga: "g a = x" and gxx: "g x = hd (xs @ [a])" unfolding g_def by auto
  have "map g (a # x # xs) = x # hd (xs @ [a]) # tl (xs @ [a])"
    using ga gxx gx by simp
  also have "\<dots> = (x # xs) @ [a]" by (cases xs) simp_all
  finally show ?thesis unfolding cyc_def g_def .
qed

lemma cyc_insert_back:
  assumes d: "distinct (a # xs)" and x: "x \<notin> set (a # xs)" and c: "cyc f a xs"
  shows "cyc (f(x := a, last (a # xs) := x)) a (xs @ [x])"
proof -
  define p where "p = last (a # xs)"
  define us where "us = butlast (a # xs)"
  define g where "g = f(x := a)"
  have us: "a # xs = us @ [p]" unfolding us_def p_def by (rule snoc_last)
  with d have dus: "distinct (us @ [p])" by simp
  have "p \<in> set (a # xs)" unfolding p_def by (rule last_in_set) simp
  with x have px: "p \<noteq> x" by auto
  from x have "map g (a # xs) = map f (a # xs)" unfolding g_def by (intro map_cong) auto
  also from c have "\<dots> = xs @ [a]" by (simp add: cyc_def)
  finally have g: "map g (a # xs) = xs @ [a]" .
  have "map (g(p := x)) (a # xs) = butlast (map g (a # xs)) @ [x]"
    using map_upd_last [OF dus, of g x] us by simp
  with g have 1: "map (g(p := x)) (a # xs) = xs @ [x]" by simp
  from px have 2: "(g(p := x)) x = a" unfolding g_def by simp
  have "map (g(p := x)) (a # xs @ [x]) = map (g(p := x)) (a # xs) @ [(g(p := x)) x]"
    by simp
  also have "\<dots> = (xs @ [x]) @ [a]" unfolding 1 2 by simp
  finally show ?thesis unfolding cyc_def g_def p_def .
qed

lemma unlink_nxt: "(\<lambda>a. nxt (unlink h x a)) = (\<lambda>a. nxt (h a))(prev (h x) := nxt (h x))"
  by (rule ext) (simp add: unlink_def Let_def)

lemma unlink_prev: "(\<lambda>a. prev (unlink h x a)) = (\<lambda>a. prev (h a))(nxt (h x) := prev (h x))"
  by (rule ext) (simp add: unlink_def Let_def)

lemma link_after_nxt:
  "x \<noteq> s \<Longrightarrow> (\<lambda>a. nxt (link_after h x s a)) = (\<lambda>a. nxt (h a))(x := nxt (h s), s := x)"
  by (rule ext) (simp add: link_after_def Let_def)

lemma link_after_prev:
  "x \<noteq> s \<Longrightarrow> (\<lambda>a. prev (link_after h x s a)) = (\<lambda>a. prev (h a))(x := s, nxt (h s) := x)"
  by (rule ext) (simp add: link_after_def Let_def)

lemma link_after_node_key [simp]: "node_key (link_after h x s a) = node_key (h a)"
  by (simp add: link_after_def Let_def)

lemma link_after_node_value [simp]: "node_value (link_after h x s a) = node_value (h a)"
  by (simp add: link_after_def Let_def)

lemma hd_rev_snoc: "hd (rev ys @ [s]) = last (s # ys)"
  by (cases ys rule: rev_cases) simp_all

lemma cyc_first: "cyc f a xs \<Longrightarrow> f a = hd (xs @ [a])"
  by (cases xs) (simp_all add: cyc_def)

lemma dll_unlink:
  assumes "dll h s (ys @ x # zs)"
  shows "dll (unlink h x) s (ys @ zs)"
proof -
  from assms have d: "distinct (s # ys @ x # zs)"
    and cn: "cyc (\<lambda>a. nxt (h a)) s (ys @ x # zs)"
    and cp: "cyc (\<lambda>a. prev (h a)) s (rev zs @ x # rev ys)"
    by (simp_all add: dll_def)
  from d have d': "distinct (s # rev zs @ x # rev ys)" by auto
  have n: "nxt (h x) = hd (zs @ [s])" using cyc_parts(2) [OF cn] .
  have p: "prev (h x) = last (s # ys)" using cyc_parts(2) [OF cp] by (simp only: hd_rev_snoc)
  have n': "nxt (h x) = last (s # rev zs)" unfolding n by (simp only: hd_rev_snoc [symmetric] rev_rev_ident)
  have p': "prev (h x) = hd (rev ys @ [s])" using cyc_parts(2) [OF cp] .
  have 1: "cyc (\<lambda>a. nxt (unlink h x a)) s (ys @ zs)"
    unfolding unlink_nxt p n by (rule cyc_remove [OF d cn])
  have "cyc (\<lambda>a. prev (unlink h x a)) s (rev zs @ rev ys)"
    unfolding unlink_prev p' n' by (rule cyc_remove [OF d' cp])
  then have 2: "cyc (\<lambda>a. prev (unlink h x a)) s (rev (ys @ zs))" by simp
  from d have "distinct (s # ys @ zs)" by auto
  with 1 2 show ?thesis by (simp add: dll_def)
qed

lemma dll_link_after:
  assumes "dll h s ns" and x: "x \<notin> set (s # ns)"
  shows "dll (link_after h x s) s (x # ns)"
proof -
  from assms have d: "distinct (s # ns)"
    and cn: "cyc (\<lambda>a. nxt (h a)) s ns" and cp: "cyc (\<lambda>a. prev (h a)) s (rev ns)"
    by (simp_all add: dll_def)
  from d have d': "distinct (s # rev ns)" by simp
  from x have x': "x \<notin> set (s # rev ns)" and xs: "x \<noteq> s" by auto
  have f: "nxt (h s) = hd (ns @ [s])" using cn by (rule cyc_first)
  have f': "nxt (h s) = last (s # rev ns)" unfolding f by (simp only: hd_rev_snoc [symmetric] rev_rev_ident)
  have 1: "cyc (\<lambda>a. nxt (link_after h x s a)) s (x # ns)"
    unfolding link_after_nxt [OF xs] f by (rule cyc_insert_front [OF d x cn])
  have "cyc (\<lambda>a. prev (link_after h x s a)) s (rev ns @ [x])"
    unfolding link_after_prev [OF xs] f' by (rule cyc_insert_back [OF d' x' cp])
  then have 2: "cyc (\<lambda>a. prev (link_after h x s a)) s (rev (x # ns))" by simp
  from d x have "distinct (s # x # ns)" by auto
  with 1 2 show ?thesis by (simp only: dll_def)
qed

lemma dll_frame:
  assumes "dll h s ns" and "\<And>a. a \<in> set (s # ns) \<Longrightarrow> nxt (h' a) = nxt (h a) \<and> prev (h' a) = prev (h a)"
  shows "dll h' s ns"
proof -
  from assms(2) have 1: "map (\<lambda>a. nxt (h' a)) (s # ns) = map (\<lambda>a. nxt (h a)) (s # ns)"
    by (intro map_cong) auto
  from assms(2) have 2: "map (\<lambda>a. prev (h' a)) (s # rev ns) = map (\<lambda>a. prev (h a)) (s # rev ns)"
    by (intro map_cong) auto
  from assms(1) show ?thesis unfolding dll_def cyc_def 1 2 .
qed

lemma dll_prev_sentinel:
  assumes "dll h s ns" and "ns \<noteq> []"
  shows "prev (h s) = last ns"
proof -
  from assms(1) have "cyc (\<lambda>a. prev (h a)) s (rev ns)" by (simp add: dll_def)
  then have "prev (h s) = hd (rev ns @ [s])" by (rule cyc_first)
  with assms(2) show ?thesis by (simp add: hd_rev_snoc)
qed

lemma length_update_alist:
  "length (AList.update k v d) = (if map_of d k = None then Suc (length d) else length d)"
  by (induction d) auto

lemma length_delete_present:
  "distinct (map fst d) \<Longrightarrow> map_of d k = Some a \<Longrightarrow> Suc (length (AList.delete k d)) = length d"
proof (induction d)
  case Nil
  then show ?case by simp
next
  case (Cons p d)
  show ?case
  proof (cases "fst p = k")
    case True
    with Cons.prems have "k \<notin> fst ` set d" by auto
    then have "AList.delete k d = d" by (induction d) auto
    with True show ?thesis by (cases p) simp
  next
    case False
    with Cons show ?thesis by (cases p) auto
  qed
qed

lemma dict_rel_lookup:
  "dict_rel d kf vf ns \<Longrightarrow> a \<in> set ns \<Longrightarrow> kf a = Some k \<Longrightarrow> map_of d k = Some a"
  unfolding dict_rel_def by blast

lemma dict_rel_found:
  "dict_rel d kf vf ns \<Longrightarrow> map_of d k = Some a \<Longrightarrow>
   a \<in> set ns \<and> kf a = Some k \<and> (\<exists>v. vf a = Some v)"
  unfolding dict_rel_def by blast

lemma dict_rel_absent:
  "dict_rel d kf vf ns \<Longrightarrow> map_of d k = None \<Longrightarrow> a \<in> set ns \<Longrightarrow> kf a \<noteq> Some k"
  unfolding dict_rel_def by (metis option.distinct(1))

lemma dict_rel_length: "dict_rel d kf vf ns \<Longrightarrow> length d = length ns"
  unfolding dict_rel_def by blast

lemma dict_rel_distinct: "dict_rel d kf vf ns \<Longrightarrow> distinct (map fst d)"
  unfolding dict_rel_def by blast

lemma dict_rel_inj:
  "dict_rel d kf vf ns \<Longrightarrow> a \<in> set ns \<Longrightarrow> b \<in> set ns \<Longrightarrow> kf a = Some k \<Longrightarrow> kf b = Some k \<Longrightarrow> a = b"
  unfolding dict_rel_def by (metis option.inject)

lemma dict_rel_delete:
  assumes r: "dict_rel d kf vf (ys @ x # zs)" and dist: "distinct (ys @ x # zs)"
    and kx: "kf x = Some k"
  shows "dict_del d k = Inr (AList.delete k d)" and "dict_rel (AList.delete k d) kf vf (ys @ zs)"
proof -
  from r kx have m: "map_of d k = Some x" by (intro dict_rel_lookup [of d kf vf "ys @ x # zs"]) simp_all
  then show "dict_del d k = Inr (AList.delete k d)" by (simp add: dict_del_def)
  from r have dk: "distinct (map fst d)" and len: "length d = length (ys @ x # zs)"
    and nn: "\<forall>a \<in> set (ys @ x # zs). kf a \<noteq> None \<and> vf a \<noteq> None"
    and iff: "\<And>k a. map_of d k = Some a \<longleftrightarrow> a \<in> set (ys @ x # zs) \<and> kf a = Some k"
    unfolding dict_rel_def by blast+
  from length_delete_present [OF dk m] len
  have 1: "length (AList.delete k d) = length (ys @ zs)" by simp
  have 2: "distinct (map fst (AList.delete k d))" using dk by (rule AList.distinct_delete)
  have 3: "map_of (AList.delete k d) k' = Some a \<longleftrightarrow> a \<in> set (ys @ zs) \<and> kf a = Some k'"
    for k' a
  proof (cases "k' = k")
    case True
    have "a \<in> set (ys @ zs) \<Longrightarrow> kf a = Some k \<Longrightarrow> False"
    proof -
      assume a: "a \<in> set (ys @ zs)" and "kf a = Some k"
      with iff [of k a] have "map_of d k = Some a" by auto
      with m have "a = x" by simp
      with a dist show False by auto
    qed
    with True show ?thesis by (auto simp: AList.delete_conv' simp del: map_of_eq_Some_iff)
  next
    case False
    with kx dist iff [of k' a] show ?thesis
      by (auto simp: AList.delete_conv' simp del: map_of_eq_Some_iff)
  qed
  from nn have 4: "\<forall>a \<in> set (ys @ zs). kf a \<noteq> None \<and> vf a \<noteq> None"
    by auto
  from 1 2 3 4 show "dict_rel (AList.delete k d) kf vf (ys @ zs)"
    unfolding dict_rel_def by blast
qed

lemma dict_rel_insert:
  assumes r: "dict_rel d kf vf ns" and fresh_k: "map_of d k = None" and x: "x \<notin> set ns"
  shows "dict_rel (AList.update k x d) (kf(x := Some k)) (vf(x := Some v)) (x # ns)"
proof -
  from r have dk: "distinct (map fst d)" and len: "length d = length ns"
    and nn: "\<forall>a \<in> set ns. kf a \<noteq> None \<and> vf a \<noteq> None"
    and iff: "\<And>k a. map_of d k = Some a \<longleftrightarrow> a \<in> set ns \<and> kf a = Some k"
    unfolding dict_rel_def by blast+
  have 1: "length (AList.update k x d) = length (x # ns)"
    using fresh_k len by (simp add: length_update_alist)
  have 2: "distinct (map fst (AList.update k x d))" using dk by (rule AList.distinct_update)
  have 3: "map_of (AList.update k x d) k' = Some a
      \<longleftrightarrow> a \<in> set (x # ns) \<and> (kf(x := Some k)) a = Some k'"
    for k' a
  proof (cases "a = x")
    case True
    with fresh_k iff [of k' x] x show ?thesis
      by (auto simp: AList.update_conv' simp del: map_of_eq_Some_iff)
  next
    case False
    with fresh_k iff [of k' a] iff [of k a] show ?thesis
      by (auto simp: AList.update_conv' simp del: map_of_eq_Some_iff)
  qed
  from nn have 4: "\<forall>a \<in> set (x # ns). (kf(x := Some k)) a \<noteq> None \<and> (vf(x := Some v)) a \<noteq> None"
    by auto
  from 1 2 3 4 show ?thesis unfolding dict_rel_def by blast
qed

lemma dict_rel_perm:
  assumes "dict_rel d kf vf ns" and "set ns' = set ns" and "length ns' = length ns"
  shows "dict_rel d kf vf ns'"
  using assms unfolding dict_rel_def by simp

lemma dict_rel_keys:
  assumes "dict_rel d kf vf ns"
  shows "fst ` set d = {k. \<exists>a \<in> set ns. kf a = Some k}"
proof -
  have "fst ` set d = dom (map_of d)" by (simp add: dom_map_of_conv_image_fst)
  also have "\<dots> = {k. \<exists>a \<in> set ns. kf a = Some k}"
    using assms unfolding dict_rel_def dom_def by blast
  finally show ?thesis .
qed

lemma LRUCache_get_miss:
  "map_of (lru_data c) k = None \<Longrightarrow> LRUCache_get c k clk = Inr (None, c, clk)"
  by (simp add: LRUCache_get_def)

lemma lru_inv_unlink:
  assumes inv: "lru_inv c (ys @ a # zs)" and ka: "node_key (heap c a) = Some k"
  shows "del_node_key (lru_data c) (node_key (unlink (heap c) a a)) = Inr (AList.delete k (lru_data c))"
    and "lru_inv (c\<lparr>heap := unlink (heap c) a, lru_data := AList.delete k (lru_data c)\<rparr>) (ys @ zs)"
proof -
  from inv have dl: "dll (heap c) (sentinel c) (ys @ a # zs)"
    and dr: "dict_rel (lru_data c) (\<lambda>b. node_key (heap c b)) (\<lambda>b. node_value (heap c b)) (ys @ a # zs)"
    and fr: "\<forall>b \<in> set (sentinel c # ys @ a # zs). b < next_free c"
    unfolding lru_inv_def by blast+
  from dl have dist: "distinct (ys @ a # zs)" by (simp add: dll_def)
  from dict_rel_delete(1) [OF dr dist ka] ka
  show "del_node_key (lru_data c) (node_key (unlink (heap c) a a)) = Inr (AList.delete k (lru_data c))"
    by (simp add: del_node_key_def)
  from dll_unlink [OF dl] dict_rel_delete(2) [OF dr dist ka] fr
  show "lru_inv (c\<lparr>heap := unlink (heap c) a, lru_data := AList.delete k (lru_data c)\<rparr>) (ys @ zs)"
    unfolding lru_inv_def by simp
qed

lemma LRUCache_get_stale_inv:
  assumes inv: "lru_inv c (ys @ a # zs)" and ka: "node_key (heap c a) = Some k"
    and va: "node_value (heap c a) = Some v" and stale: "expiration v \<le> clk 0"
  shows "\<exists>c'. LRUCache_get c k clk = Inr (None, c', (\<lambda>n. clk (Suc n)))
     \<and> lru_inv c' (ys @ zs) \<and> frame c c'"
proof -
  from inv have dr: "dict_rel (lru_data c) (\<lambda>b. node_key (heap c b)) (\<lambda>b. node_value (heap c b)) (ys @ a # zs)"
    unfolding lru_inv_def by blast
  from dict_rel_lookup [OF dr _ ka] have m: "map_of (lru_data c) k = Some a" by simp
  let ?c' = "c\<lparr>heap := unlink (heap c) a, lru_data := AList.delete k (lru_data c)\<rparr>"
  have "LRUCache_get c k clk = Inr (None, ?c', (\<lambda>n. clk (Suc n)))"
    using m va stale lru_inv_unlink(1) [OF inv ka]
    by (simp add: LRUCache_get_def Let_def time_time_def)
  moreover have "frame c ?c'" by (simp add: frame_def)
  ultimately show ?thesis using lru_inv_unlink(2) [OF inv ka] by blast
qed

lemma LRUCache_get_fresh_inv:
  assumes inv: "lru_inv c (ys @ a # zs)" and ka: "node_key (heap c a) = Some k"
    and va: "node_value (heap c a) = Some v" and fresh: "\<not> expiration v \<le> clk 0"
  shows "\<exists>c'. LRUCache_get c k clk = Inr (Some v, c', (\<lambda>n. clk (Suc n)))
     \<and> lru_inv c' (a # ys @ zs) \<and> frame c c'"
proof -
  from inv have dl: "dll (heap c) (sentinel c) (ys @ a # zs)"
    and dr: "dict_rel (lru_data c) (\<lambda>b. node_key (heap c b)) (\<lambda>b. node_value (heap c b)) (ys @ a # zs)"
    and fr: "\<forall>b \<in> set (sentinel c # ys @ a # zs). b < next_free c"
    unfolding lru_inv_def by blast+
  from dict_rel_lookup [OF dr _ ka] have m: "map_of (lru_data c) k = Some a" by simp
  let ?h = "link_after (unlink (heap c) a) a (sentinel c)"
  let ?c' = "c\<lparr>heap := ?h\<rparr>"
  have g: "LRUCache_get c k clk = Inr (Some v, ?c', (\<lambda>n. clk (Suc n)))"
    using m va fresh by (simp add: LRUCache_get_def Let_def time_time_def)
  from dl have "a \<notin> set (sentinel c # ys @ zs)" by (auto simp: dll_def)
  with dll_unlink [OF dl] have 1: "dll ?h (sentinel c) (a # ys @ zs)" by (rule dll_link_after)
  have 2: "dict_rel (lru_data c) (\<lambda>b. node_key (?h b)) (\<lambda>b. node_value (?h b)) (a # ys @ zs)"
    using dict_rel_perm [OF dr, of "a # ys @ zs"] by auto
  from 1 2 fr have "lru_inv ?c' (a # ys @ zs)" unfolding lru_inv_def by simp
  moreover have "frame c ?c'" by (simp add: frame_def)
  ultimately show ?thesis using g by blast
qed

lemma lru_inv_length: "lru_inv c ns \<Longrightarrow> length (lru_data c) = length ns"
  unfolding lru_inv_def by (blast dest: dict_rel_length)

lemma lru_inv_dict:
  "lru_inv c ns \<Longrightarrow>
   dict_rel (lru_data c) (\<lambda>b. node_key (heap c b)) (\<lambda>b. node_value (heap c b)) ns"
  unfolding lru_inv_def by blast

lemma lru_inv_dll: "lru_inv c ns \<Longrightarrow> dll (heap c) (sentinel c) ns"
  unfolding lru_inv_def by blast

lemma evict_not_full: "int (length (lru_data c)) < max_size c \<Longrightarrow> evict c = Inr c"
  by (simp add: evict.simps)

lemma evict_full_once:
  assumes inv: "lru_inv c (ys @ [a])" and full: "int (length (ys @ [a])) = max_size c"
    and ka: "node_key (heap c a) = Some k"
  shows "\<exists>c'. evict c = Inr c' \<and> lru_inv c' ys \<and> frame c c'
     \<and> lru_data c' = AList.delete k (lru_data c)"
proof -
  let ?c' = "c\<lparr>heap := unlink (heap c) a, lru_data := AList.delete k (lru_data c)\<rparr>"
  from dll_prev_sentinel [OF lru_inv_dll [OF inv]] have p: "prev (heap c (sentinel c)) = a" by simp
  have u1: "del_node_key (lru_data c) (node_key (unlink (heap c) a a)) = Inr (AList.delete k (lru_data c))"
    using lru_inv_unlink(1) [of c ys a "[]" k] inv ka by simp
  have u2: "lru_inv ?c' ys"
    using lru_inv_unlink(2) [of c ys a "[]" k] inv ka by simp
  from lru_inv_length [OF u2] full have "int (length (lru_data ?c')) < max_size ?c'" by simp
  then have e2: "evict ?c' = Inr ?c'" by (rule evict_not_full)
  from lru_inv_length [OF inv] full have "max_size c \<le> int (length (lru_data c))" by simp
  then have "evict c = Inr ?c'"
    using p u1 e2 by (subst evict.simps) (simp add: Let_def)
  moreover have "frame c ?c'" by (simp add: frame_def)
  ultimately show ?thesis using u2 by simp
qed

lemma put_remove_existing:
  assumes inv: "lru_inv c ns"
  shows "\<exists>c1 ns1. (case map_of (lru_data c) k of
              None \<Rightarrow> Inr c
            | Some node \<Rightarrow>
                (let h1 = unlink (heap c) node
                 in case del_node_key (lru_data c) (node_key (h1 node)) of
                      Inl e \<Rightarrow> Inl e
                    | Inr d \<Rightarrow> Inr (c\<lparr>heap := h1, lru_data := d\<rparr>))) = Inr c1
      \<and> lru_inv c1 ns1 \<and> frame c c1 \<and> map_of (lru_data c1) k = None
      \<and> (case map_of (lru_data c) k of
            None \<Rightarrow> ns1 = ns
          | Some a \<Rightarrow> (\<exists>ys zs. ns = ys @ a # zs \<and> ns1 = ys @ zs))"
proof (cases "map_of (lru_data c) k")
  case None
  with inv show ?thesis by (auto simp: frame_def)
next
  case (Some a)
  from dict_rel_found [OF lru_inv_dict [OF inv] Some]
  have a: "a \<in> set ns" and ka: "node_key (heap c a) = Some k" by simp_all
  from a obtain ys zs where ns: "ns = ys @ a # zs" by (auto dest: split_list)
  let ?c1 = "c\<lparr>heap := unlink (heap c) a, lru_data := AList.delete k (lru_data c)\<rparr>"
  from lru_inv_unlink [OF inv [unfolded ns] ka]
  have u1: "del_node_key (lru_data c) (node_key (unlink (heap c) a a)) = Inr (AList.delete k (lru_data c))"
    and u2: "lru_inv ?c1 (ys @ zs)" by simp_all
  have "map_of (lru_data ?c1) k = None" by (simp add: AList.delete_conv')
  moreover have "frame c ?c1" by (simp add: frame_def)
  ultimately show ?thesis using Some u1 u2 ns by (auto simp: Let_def)
qed

lemma put_insert:
  assumes inv: "lru_inv c ns" and absent: "map_of (lru_data c) k = None"
  shows "lru_inv (c\<lparr>heap := link_after (new_node (heap c) (next_free c) (Some k) (Some v))
                           (next_free c) (sentinel c),
                  next_free := Suc (next_free c),
                  lru_data := AList.update k (next_free c) (lru_data c)\<rparr>) (next_free c # ns)"
proof -
  let ?x = "next_free c" and ?s = "sentinel c"
  let ?h = "new_node (heap c) ?x (Some k) (Some v)"
  let ?h' = "link_after ?h ?x ?s"
  from inv have dl: "dll (heap c) ?s ns"
    and dr: "dict_rel (lru_data c) (\<lambda>b. node_key (heap c b)) (\<lambda>b. node_value (heap c b)) ns"
    and fr: "\<forall>b \<in> set (?s # ns). b < ?x"
    unfolding lru_inv_def by blast+
  from fr have x: "?x \<notin> set (?s # ns)" by auto
  then have "\<And>b. b \<in> set (?s # ns) \<Longrightarrow> nxt (?h b) = nxt (heap c b) \<and> prev (?h b) = prev (heap c b)"
    by (auto simp: new_node_def)
  with dl have "dll ?h ?s ns" by (rule dll_frame)
  then have 1: "dll ?h' ?s (?x # ns)" using x by (rule dll_link_after)
  have k: "(\<lambda>b. node_key (?h' b)) = (\<lambda>b. node_key (heap c b))(?x := Some k)"
    and v: "(\<lambda>b. node_value (?h' b)) = (\<lambda>b. node_value (heap c b))(?x := Some v)"
    by (rule ext, simp add: new_node_def)+
  from x have "?x \<notin> set ns" by simp
  with dr absent have 2: "dict_rel (AList.update k ?x (lru_data c)) (\<lambda>b. node_key (?h' b))
      (\<lambda>b. node_value (?h' b)) (?x # ns)"
    unfolding k v by (rule dict_rel_insert)
  from fr have 3: "\<forall>b \<in> set (?s # ?x # ns). b < Suc ?x" by auto
  from 1 2 3 show ?thesis unfolding lru_inv_def by simp
qed

lemma LRUCache_put_inv:
  assumes inv: "lru_inv c ns" and le: "int (length ns) \<le> max_size c" and pos: "1 \<le> max_size c"
  shows "\<exists>c' ns2. LRUCache_put c k v = Inr c' \<and> lru_inv c' (next_free c # ns2)
      \<and> node_key (heap c' (next_free c)) = Some k
      \<and> (\<forall>b. b \<noteq> next_free c \<longrightarrow> node_key (heap c' b) = node_key (heap c b))
      \<and> max_size c' = max_size c \<and> sentinel c' = sentinel c
      \<and> int (length (next_free c # ns2)) \<le> max_size c
      \<and> (case map_of (lru_data c) k of
            Some a \<Rightarrow> (\<exists>ys zs. ns = ys @ a # zs \<and> ns2 = ys @ zs)
          | None \<Rightarrow> (if int (length ns) = max_size c then ns \<noteq> [] \<and> ns2 = butlast ns else ns2 = ns))"
proof -
  from put_remove_existing [OF inv, of k] obtain c1 ns1 where
    e1: "(case map_of (lru_data c) k of
              None \<Rightarrow> Inr c
            | Some node \<Rightarrow>
                (let h1 = unlink (heap c) node
                 in case del_node_key (lru_data c) (node_key (h1 node)) of
                      Inl e \<Rightarrow> Inl e
                    | Inr d \<Rightarrow> Inr (c\<lparr>heap := h1, lru_data := d\<rparr>))) = Inr c1"
    and inv1: "lru_inv c1 ns1" and f1: "frame c c1" and abs1: "map_of (lru_data c1) k = None"
    and d1: "(case map_of (lru_data c) k of
            None \<Rightarrow> ns1 = ns
          | Some a \<Rightarrow> (\<exists>ys zs. ns = ys @ a # zs \<and> ns1 = ys @ zs))"
    by blast
  have "\<exists>c2 ns2. evict c1 = Inr c2 \<and> lru_inv c2 ns2 \<and> frame c1 c2 \<and> map_of (lru_data c2) k = None
      \<and> int (length ns2) < max_size c
      \<and> (if int (length ns1) = max_size c then ns1 \<noteq> [] \<and> ns2 = butlast ns1 else ns2 = ns1)"
  proof (cases "int (length ns1) = max_size c")
    case True
    with pos have ne: "ns1 \<noteq> []" by auto
    then have sp: "ns1 = butlast ns1 @ [last ns1]" by simp
    from lru_inv_dict [OF inv1] ne obtain kl where kl: "node_key (heap c1 (last ns1)) = Some kl"
      unfolding dict_rel_def by (metis last_in_set not_Some_eq)
    from True f1 have full: "int (length (butlast ns1 @ [last ns1])) = max_size c1"
      using sp by (simp add: frame_def)
    from evict_full_once [OF _ full kl] inv1 sp obtain c2 where
      "evict c1 = Inr c2" "lru_inv c2 (butlast ns1)" "frame c1 c2"
      "lru_data c2 = AList.delete kl (lru_data c1)" by auto
    moreover from this abs1 have "map_of (lru_data c2) k = None" by (simp add: AList.delete_conv')
    moreover from True ne have "int (length (butlast ns1)) < max_size c"
      by (cases ns1 rule: rev_cases) auto
    ultimately show ?thesis using True ne by auto
  next
    case False
    from d1 le have "int (length ns1) \<le> max_size c" by (auto split: option.splits)
    with False have lt: "int (length ns1) < max_size c" by simp
    with f1 lru_inv_length [OF inv1] have "evict c1 = Inr c1"
      by (intro evict_not_full) (simp add: frame_def)
    with inv1 abs1 lt False show ?thesis by (auto simp: frame_def)
  qed
  then obtain c2 ns2 where e2: "evict c1 = Inr c2" and inv2: "lru_inv c2 ns2"
    and f2: "frame c1 c2" and abs2: "map_of (lru_data c2) k = None"
    and len2: "int (length ns2) < max_size c"
    and d2: "if int (length ns1) = max_size c then ns1 \<noteq> [] \<and> ns2 = butlast ns1 else ns2 = ns1"
    by blast
  let ?c' = "c2\<lparr>heap := link_after (new_node (heap c2) (next_free c2) (Some k) (Some v))
                           (next_free c2) (sentinel c2),
                  next_free := Suc (next_free c2),
                  lru_data := AList.update k (next_free c2) (lru_data c2)\<rparr>"
  have put: "LRUCache_put c k v = Inr ?c'"
    unfolding LRUCache_put_def e1 by (simp add: e2 Let_def)
  from f1 f2 have nf: "next_free c2 = next_free c" and ms: "max_size c2 = max_size c"
    and sn: "sentinel c2 = sentinel c"
    and keys: "\<And>b. node_key (heap c2 b) = node_key (heap c b)"
    by (simp_all add: frame_def)
  from put_insert [OF inv2 abs2, of v] have inv': "lru_inv ?c' (next_free c # ns2)"
    by (simp only: nf)
  have k1: "node_key (heap ?c' (next_free c)) = Some k" by (simp add: nf new_node_def)
  have k2: "\<forall>b. b \<noteq> next_free c \<longrightarrow> node_key (heap ?c' b) = node_key (heap c b)"
    by (simp add: nf new_node_def keys)
  have d: "case map_of (lru_data c) k of
            Some a \<Rightarrow> (\<exists>ys zs. ns = ys @ a # zs \<and> ns2 = ys @ zs)
          | None \<Rightarrow> (if int (length ns) = max_size c then ns \<noteq> [] \<and> ns2 = butlast ns else ns2 = ns)"
  proof (cases "map_of (lru_data c) k")
    case None
    with d1 d2 show ?thesis by (auto split: if_splits)
  next
    case (Some a)
    with d1 obtain ys zs where ns: "ns = ys @ a # zs" "ns1 = ys @ zs" by auto
    with le have "int (length ns1) \<noteq> max_size c" by simp
    with d2 ns Some show ?thesis by auto
  qed
  from put inv' k1 k2 ms sn len2 d show ?thesis
    by (intro exI [of _ ?c'] exI [of _ ns2]) simp
qed

lemma last_use_snoc:
  "last_use (ops @ [x]) k = (if op_key x = k then Suc (length ops) else last_use ops k)"
  by (simp add: last_use_def)

lemma last_use_le: "last_use ops k \<le> length ops"
  unfolding last_use_def using length_dropWhile_le [of _ "rev ops"] by simp

lemma lru_run_snoc:
  "lru_run (ops @ [x]) c clk =
     (case lru_run ops c clk of Inl e \<Rightarrow> Inl e | Inr (c', clk') \<Rightarrow> lru_step x c' clk')"
  by (induction ops arbitrary: c clk) (auto split: sum.splits)

lemma sorted_wrt_drop_middle: "sorted_wrt P (ys @ a # zs) \<Longrightarrow> sorted_wrt P (ys @ zs)"
  by (auto simp: sorted_wrt_append)

lemma sorted_wrt_butlast: "sorted_wrt P ns \<Longrightarrow> sorted_wrt P (butlast ns)"
  by (cases ns rule: rev_cases) (auto simp: sorted_wrt_append)

lemma sorted_after_touch:
  assumes s: "sorted_wrt (\<lambda>a b. last_use ops (g b) < last_use ops (g a)) ns"
    and o: "\<forall>b \<in> set ns. g' b = g b \<and> g b \<noteq> op_key x"
  shows "sorted_wrt (\<lambda>a b. last_use (ops @ [x]) (g' b) < last_use (ops @ [x]) (g' a)) ns"
    and "g' a = op_key x \<Longrightarrow>
      sorted_wrt (\<lambda>a b. last_use (ops @ [x]) (g' b) < last_use (ops @ [x]) (g' a)) (a # ns)"
proof -
  show 1: "sorted_wrt (\<lambda>a b. last_use (ops @ [x]) (g' b) < last_use (ops @ [x]) (g' a)) ns"
    using s by (rule sorted_wrt_mono_rel [rotated]) (use o in \<open>auto simp: last_use_snoc\<close>)
  assume a: "g' a = op_key x"
  have "last_use (ops @ [x]) (g' b) < last_use (ops @ [x]) (g' a)" if "b \<in> set ns" for b
  proof -
    from that o have "last_use (ops @ [x]) (g' b) = last_use ops (g b)"
      by (auto simp: last_use_snoc)
    also have "\<dots> < Suc (length ops)" using last_use_le [of ops "g b"] by simp
    also have "\<dots> = last_use (ops @ [x]) (g' a)" by (simp add: a last_use_snoc)
    finally show ?thesis .
  qed
  with 1 show "sorted_wrt (\<lambda>a b. last_use (ops @ [x]) (g' b) < last_use (ops @ [x]) (g' a)) (a # ns)"
    by simp
qed

lemma lru_inv_init: "lru_inv (LRUCache_init n) []"
  by (simp add: lru_inv_def dll_def cyc_def dict_rel_def LRUCache_init_def set_max_size_def
      new_node_def Let_def)

lemma run_inv_init: "run_inv [] (LRUCache_init n) [] \<and> max_size (LRUCache_init n) = max 1 n"
  using lru_inv_init [of n]
  by (auto simp: run_inv_def LRUCache_init_def set_max_size_def Let_def)

lemma lru_inv_other_keys:
  assumes inv: "lru_inv c (ys @ a # zs)" and ka: "node_key (heap c a) = Some k"
    and b: "b \<in> set (ys @ zs)"
  shows "the (node_key (heap c b)) \<noteq> k"
proof
  assume e: "the (node_key (heap c b)) = k"
  from lru_inv_dict [OF inv] b have "node_key (heap c b) \<noteq> None"
    unfolding dict_rel_def by auto
  with e have kb: "node_key (heap c b) = Some k" by auto
  from b have "b \<in> set (ys @ a # zs)" by auto
  from dict_rel_inj [OF lru_inv_dict [OF inv] this _ kb ka] have "b = a" by simp
  moreover from lru_inv_dll [OF inv] have "distinct (ys @ a # zs)" by (simp add: dll_def)
  ultimately show False using b by auto
qed

lemma lru_inv_absent_keys:
  assumes inv: "lru_inv c ns" and absent: "map_of (lru_data c) k = None" and b: "b \<in> set ns"
  shows "the (node_key (heap c b)) \<noteq> k"
proof
  assume e: "the (node_key (heap c b)) = k"
  from lru_inv_dict [OF inv] b have "node_key (heap c b) \<noteq> None"
    unfolding dict_rel_def by auto
  with e have "node_key (heap c b) = Some k" by auto
  with dict_rel_absent [OF lru_inv_dict [OF inv] absent b] show False by simp
qed

lemma run_inv_get:
  assumes ri: "run_inv ops c ns"
  shows "\<exists>c' clk' ns'. lru_step (Get k) c clk = Inr (c', clk') \<and> run_inv (ops @ [Get k]) c' ns'
     \<and> max_size c' = max_size c"
proof (cases "map_of (lru_data c) k")
  case None
  from ri have inv: "lru_inv c ns" by (simp add: run_inv_def)
  from ri have s: "sorted_wrt (\<lambda>a b. last_use ops (the (node_key (heap c b)))
      < last_use ops (the (node_key (heap c a)))) ns" by (simp add: run_inv_def)
  have "\<forall>b \<in> set ns. the (node_key (heap c b)) = the (node_key (heap c b))
      \<and> the (node_key (heap c b)) \<noteq> op_key (Get k)"
    using lru_inv_absent_keys [OF inv None] by simp
  from sorted_after_touch(1) [where g = "\<lambda>b. the (node_key (heap c b))"
      and g' = "\<lambda>b. the (node_key (heap c b))", OF s this] ri
  have "run_inv (ops @ [Get k]) c ns"
    by (simp add: run_inv_def)
  with None show ?thesis by (auto simp: LRUCache_get_miss)
next
  case (Some a)
  from ri have inv: "lru_inv c ns" and pos: "1 \<le> max_size c" and le: "int (length ns) \<le> max_size c"
    and s: "sorted_wrt (\<lambda>a b. last_use ops (the (node_key (heap c b)))
      < last_use ops (the (node_key (heap c a)))) ns" by (simp_all add: run_inv_def)
  from dict_rel_found [OF lru_inv_dict [OF inv] Some] obtain v where
    a: "a \<in> set ns" and ka: "node_key (heap c a) = Some k" and va: "node_value (heap c a) = Some v"
    by auto
  from a obtain ys zs where ns: "ns = ys @ a # zs" by (auto dest: split_list)
  note inv' = inv [unfolded ns]
  from s ns have s': "sorted_wrt (\<lambda>a b. last_use ops (the (node_key (heap c b)))
      < last_use ops (the (node_key (heap c a)))) (ys @ zs)"
    by (auto dest: sorted_wrt_drop_middle)
  show ?thesis
  proof (cases "expiration v \<le> clk 0")
    case True
    from LRUCache_get_stale_inv [where clk = clk, OF inv' ka va True] obtain c' where
      g: "LRUCache_get c k clk = Inr (None, c', (\<lambda>n. clk (Suc n)))"
      and i: "lru_inv c' (ys @ zs)" and f: "frame c c'" by blast
    have "\<forall>b \<in> set (ys @ zs). the (node_key (heap c' b)) = the (node_key (heap c b))
        \<and> the (node_key (heap c b)) \<noteq> op_key (Get k)"
      using lru_inv_other_keys [OF inv' ka] f by (simp add: frame_def)
    from sorted_after_touch(1) [where g = "\<lambda>b. the (node_key (heap c b))"
        and g' = "\<lambda>b. the (node_key (heap c' b))", OF s' this] i f pos le ns
    have "run_inv (ops @ [Get k]) c' (ys @ zs)" by (simp add: run_inv_def frame_def)
    with g f show ?thesis by (auto simp: frame_def)
  next
    case False
    from LRUCache_get_fresh_inv [where clk = clk, OF inv' ka va False] obtain c' where
      g: "LRUCache_get c k clk = Inr (Some v, c', (\<lambda>n. clk (Suc n)))"
      and i: "lru_inv c' (a # ys @ zs)" and f: "frame c c'" by blast
    have o: "\<forall>b \<in> set (ys @ zs). the (node_key (heap c' b)) = the (node_key (heap c b))
        \<and> the (node_key (heap c b)) \<noteq> op_key (Get k)"
      using lru_inv_other_keys [OF inv' ka] f by (simp add: frame_def)
    from f ka have "the (node_key (heap c' a)) = op_key (Get k)" by (simp add: frame_def)
    from sorted_after_touch(2) [where g = "\<lambda>b. the (node_key (heap c b))"
        and g' = "\<lambda>b. the (node_key (heap c' b))", OF s' o this] i f pos le ns
    have "run_inv (ops @ [Get k]) c' (a # ys @ zs)" by (simp add: run_inv_def frame_def)
    with g f show ?thesis by (auto simp: frame_def)
  qed
qed

lemma put_kept_nodes:
  assumes inv: "lru_inv c ns"
    and d: "case map_of (lru_data c) k of
            Some a \<Rightarrow> (\<exists>ys zs. ns = ys @ a # zs \<and> ns2 = ys @ zs)
          | None \<Rightarrow> (if int (length ns) = max_size c then ns \<noteq> [] \<and> ns2 = butlast ns else ns2 = ns)"
  shows "set ns2 \<subseteq> set ns" and "\<forall>b \<in> set ns2. the (node_key (heap c b)) \<noteq> k"
    and "sorted_wrt P ns \<Longrightarrow> sorted_wrt P ns2"
proof -
  show "set ns2 \<subseteq> set ns"
    using d by (auto split: option.splits if_splits dest: in_set_butlastD)
  show "\<forall>b \<in> set ns2. the (node_key (heap c b)) \<noteq> k"
  proof (cases "map_of (lru_data c) k")
    case None
    with d have "set ns2 \<subseteq> set ns" by (auto split: if_splits dest: in_set_butlastD)
    with lru_inv_absent_keys [OF inv None] show ?thesis by blast
  next
    case (Some a)
    with d obtain ys zs where ns: "ns = ys @ a # zs" "ns2 = ys @ zs" by auto
    from dict_rel_found [OF lru_inv_dict [OF inv] Some] have "node_key (heap c a) = Some k"
      by simp
    from lru_inv_other_keys [OF inv [unfolded ns(1)] this] ns(2) show ?thesis by blast
  qed
  assume "sorted_wrt P ns"
  with d show "sorted_wrt P ns2"
    by (auto split: option.splits if_splits dest: sorted_wrt_drop_middle sorted_wrt_butlast)
qed

lemma run_inv_put:
  assumes ri: "run_inv ops c ns"
  shows "\<exists>c' clk' ns'. lru_step (Put k v) c clk = Inr (c', clk')
     \<and> run_inv (ops @ [Put k v]) c' ns' \<and> max_size c' = max_size c"
proof -
  from ri have inv: "lru_inv c ns" and pos: "1 \<le> max_size c" and le: "int (length ns) \<le> max_size c"
    and s: "sorted_wrt (\<lambda>a b. last_use ops (the (node_key (heap c b)))
      < last_use ops (the (node_key (heap c a)))) ns" by (simp_all add: run_inv_def)
  from LRUCache_put_inv [OF inv le pos, of k v] obtain c' ns2 where
    p: "LRUCache_put c k v = Inr c'" and i: "lru_inv c' (next_free c # ns2)"
    and k1: "node_key (heap c' (next_free c)) = Some k"
    and k2: "\<forall>b. b \<noteq> next_free c \<longrightarrow> node_key (heap c' b) = node_key (heap c b)"
    and ms: "max_size c' = max_size c"
    and len: "int (length (next_free c # ns2)) \<le> max_size c"
    and d: "case map_of (lru_data c) k of
            Some a \<Rightarrow> (\<exists>ys zs. ns = ys @ a # zs \<and> ns2 = ys @ zs)
          | None \<Rightarrow> (if int (length ns) = max_size c then ns \<noteq> [] \<and> ns2 = butlast ns else ns2 = ns)"
    by blast
  note kept = put_kept_nodes [OF inv d]
  from lru_inv_dll [OF i] have fresh: "next_free c \<notin> set ns2" by (simp add: dll_def)
  have s2: "sorted_wrt (\<lambda>a b. last_use ops (the (node_key (heap c b)))
      < last_use ops (the (node_key (heap c a)))) ns2"
    using s by (rule kept(3))
  have same: "node_key (heap c' b) = node_key (heap c b)" if "b \<in> set ns2" for b
  proof -
    from that fresh have "b \<noteq> next_free c" by auto
    with k2 show ?thesis by simp
  qed
  have o: "\<forall>b \<in> set ns2. the (node_key (heap c' b)) = the (node_key (heap c b))
        \<and> the (node_key (heap c b)) \<noteq> op_key (Put k v)"
    using kept(2) same by simp
  from k1 have "the (node_key (heap c' (next_free c))) = op_key (Put k v)" by simp
  from sorted_after_touch(2) [where g = "\<lambda>b. the (node_key (heap c b))"
      and g' = "\<lambda>b. the (node_key (heap c' b))", OF s2 o this] i pos len ms
  have "run_inv (ops @ [Put k v]) c' (next_free c # ns2)" by (simp add: run_inv_def)
  with p ms show ?thesis by auto
qed

lemma run_inv_step:
  assumes "run_inv ops c ns"
  shows "\<exists>c' clk' ns'. lru_step x c clk = Inr (c', clk') \<and> run_inv (ops @ [x]) c' ns'
     \<and> max_size c' = max_size c"
  using assms by (cases x) (simp_all only: run_inv_get run_inv_put)

lemma run_inv_run:
  "\<exists>c clk' ns. lru_run ops (LRUCache_init n) clk = Inr (c, clk') \<and> run_inv ops c ns
     \<and> max_size c = max 1 n"
proof (induction ops rule: rev_induct)
  case Nil
  from run_inv_init [of n] show ?case by auto
next
  case (snoc x ops)
  then obtain c clk' ns where r: "lru_run ops (LRUCache_init n) clk = Inr (c, clk')"
    and ri: "run_inv ops c ns" and ms: "max_size c = max 1 n" by blast
  from run_inv_step [OF ri, of x clk'] obtain c' clk'' ns' where
    "lru_step x c clk' = Inr (c', clk'')" "run_inv (ops @ [x]) c' ns'" "max_size c' = max_size c"
    by blast
  with r ms show ?case by (auto simp: lru_run_snoc)
qed

lemma lru_inv_keys:
  assumes "lru_inv c ns"
  shows "fst ` set (lru_data c) = {k. \<exists>a \<in> set ns. node_key (heap c a) = Some k}"
  using dict_rel_keys [OF lru_inv_dict [OF assms]] .

lemma put_eviction:
  assumes ri: "run_inv ops c ns"
  shows "\<exists>c2. LRUCache_put c k v = Inr c2
     \<and> (if map_of (lru_data c) k = None \<and> int (length (lru_data c)) = max_size c
        then \<exists>victim. node_key (heap c (prev (heap c (sentinel c)))) = Some victim
               \<and> victim \<in> fst ` set (lru_data c)
               \<and> (\<forall>k' \<in> fst ` set (lru_data c). k' \<noteq> victim \<longrightarrow> last_use ops victim < last_use ops k')
               \<and> fst ` set (lru_data c2) = insert k (fst ` set (lru_data c) - {victim})
        else fst ` set (lru_data c2) = insert k (fst ` set (lru_data c)))"
proof -
  from ri have inv: "lru_inv c ns" and pos: "1 \<le> max_size c" and le: "int (length ns) \<le> max_size c"
    and s: "sorted_wrt (\<lambda>a b. last_use ops (the (node_key (heap c b)))
      < last_use ops (the (node_key (heap c a)))) ns" by (simp_all add: run_inv_def)
  from LRUCache_put_inv [OF inv le pos, of k v] obtain c' ns2 where
    p: "LRUCache_put c k v = Inr c'" and i: "lru_inv c' (next_free c # ns2)"
    and k1: "node_key (heap c' (next_free c)) = Some k"
    and k2: "\<forall>b. b \<noteq> next_free c \<longrightarrow> node_key (heap c' b) = node_key (heap c b)"
    and d: "case map_of (lru_data c) k of
            Some a \<Rightarrow> (\<exists>ys zs. ns = ys @ a # zs \<and> ns2 = ys @ zs)
          | None \<Rightarrow> (if int (length ns) = max_size c then ns \<noteq> [] \<and> ns2 = butlast ns else ns2 = ns)"
    by blast
  from lru_inv_dll [OF i] have fresh: "next_free c \<notin> set ns2" by (simp add: dll_def)
  from lru_inv_dll [OF inv] have dist: "distinct ns" by (simp add: dll_def)
  have same: "node_key (heap c' b) = node_key (heap c b)" if "b \<in> set ns2" for b
  proof -
    from that fresh have "b \<noteq> next_free c" by auto
    with k2 show ?thesis by simp
  qed
  note dr = lru_inv_dict [OF inv]
  have keys: "fst ` set (lru_data c) = {k. \<exists>a \<in> set ns. node_key (heap c a) = Some k}"
    using inv by (rule lru_inv_keys)
  have "fst ` set (lru_data c') = {k'. \<exists>a \<in> set (next_free c # ns2). node_key (heap c' a) = Some k'}"
    using i by (rule lru_inv_keys)
  also have "\<dots> = insert k {k'. \<exists>a \<in> set ns2. node_key (heap c a) = Some k'}"
    using k1 same by auto
  finally have keys': "fst ` set (lru_data c') = insert k {k'. \<exists>a \<in> set ns2. node_key (heap c a) = Some k'}" .
  have len: "length (lru_data c) = length ns" using inv by (rule lru_inv_length)
  show ?thesis
  proof (cases "map_of (lru_data c) k = None \<and> int (length (lru_data c)) = max_size c")
    case True
    with d len have ne: "ns \<noteq> []" and ns2: "ns2 = butlast ns" by simp_all
    let ?l = "last ns"
    from ne have l: "?l \<in> set ns" by simp
    with dr obtain victim where kv: "node_key (heap c ?l) = Some victim"
      unfolding dict_rel_def by (metis not_Some_eq)
    from dll_prev_sentinel [OF lru_inv_dll [OF inv] ne] kv
    have 1: "node_key (heap c (prev (heap c (sentinel c)))) = Some victim" by simp
    from l kv keys have 2: "victim \<in> fst ` set (lru_data c)" by auto
    from ne have sp: "ns = butlast ns @ [?l]" by simp
    from ne have "set ns = insert ?l (set (butlast ns))"
      by (cases ns rule: rev_cases) auto
    with kv have other: "\<And>a k'. a \<in> set ns \<Longrightarrow> node_key (heap c a) = Some k' \<Longrightarrow> k' \<noteq> victim
        \<Longrightarrow> a \<in> set (butlast ns)"
      by auto
    from dist ne have lnb: "?l \<notin> set (butlast ns)"
      by (cases ns rule: rev_cases) auto
    have notl: "\<And>a. a \<in> set (butlast ns) \<Longrightarrow> node_key (heap c a) \<noteq> Some victim"
    proof
      fix a assume a: "a \<in> set (butlast ns)" and "node_key (heap c a) = Some victim"
      with dict_rel_inj [OF dr _ l this(2) kv] have "a = ?l" by (auto dest: in_set_butlastD)
      with a lnb show False by simp
    qed
    from s ne have srt: "\<forall>a \<in> set (butlast ns). last_use ops (the (node_key (heap c ?l)))
        < last_use ops (the (node_key (heap c a)))"
      by (cases ns rule: rev_cases) (auto simp: sorted_wrt_append)
    have 3: "\<forall>k' \<in> fst ` set (lru_data c). k' \<noteq> victim \<longrightarrow>
        last_use ops victim < last_use ops k'"
    proof (intro ballI impI)
      fix k' assume "k' \<in> fst ` set (lru_data c)" and nv: "k' \<noteq> victim"
      then obtain a where a: "a \<in> set ns" "node_key (heap c a) = Some k'"
        unfolding keys by auto
      from other [OF a nv] srt
      have "last_use ops (the (node_key (heap c ?l))) < last_use ops (the (node_key (heap c a)))"
        by blast
      with kv a(2) show "last_use ops victim < last_use ops k'" by simp
    qed
    have "{k'. \<exists>a \<in> set (butlast ns). node_key (heap c a) = Some k'}
        = fst ` set (lru_data c) - {victim}"
      unfolding keys using other notl by (auto dest: in_set_butlastD)
    with keys' ns2 have 4: "fst ` set (lru_data c') = insert k (fst ` set (lru_data c) - {victim})"
      by simp
    from p True 1 2 3 4 show ?thesis by auto
  next
    case False
    have "insert k {k'. \<exists>a \<in> set ns2. node_key (heap c a) = Some k'} = insert k (fst ` set (lru_data c))"
    proof (cases "map_of (lru_data c) k")
      case None
      with False d len show ?thesis unfolding keys by (auto split: if_splits)
    next
      case (Some a)
      with d obtain ys zs where ns: "ns = ys @ a # zs" "ns2 = ys @ zs" by auto
      from dict_rel_found [OF dr Some] have "node_key (heap c a) = Some k" by simp
      with ns show ?thesis unfolding keys by auto
    qed
    with keys' p False show ?thesis by auto
  qed
qed

text \<open>
  C3. Every sequence of \<open>get\<close> and \<open>put\<close> on a new LRU cache of capacity \<open>n\<close>
  (clamped to at least 1) runs without an exception, and after it the dictionary has at
  most \<open>max_size\<close> entries, under distinct keys. A further \<open>put\<close> of a key that is
  not cached into the full cache evicts exactly one entry: the key of the node just
  before the sentinel, which is the cached key whose last \<open>get\<close> or \<open>put\<close> is the
  earliest; any other \<open>put\<close> evicts nothing.
\<close>

theorem lru_bound_and_eviction:
  "\<exists>c clk'. lru_run ops (LRUCache_init n) clk = Inr (c, clk')
     \<and> max_size c = max 1 n
     \<and> int (length (lru_data c)) \<le> max_size c
     \<and> distinct (map fst (lru_data c))
     \<and> (\<forall>k v. \<exists>c2. LRUCache_put c k v = Inr c2
          \<and> (if map_of (lru_data c) k = None \<and> int (length (lru_data c)) = max_size c
             then \<exists>victim. node_key (heap c (prev (heap c (sentinel c)))) = Some victim
                    \<and> victim \<in> fst ` set (lru_data c)
                    \<and> (\<forall>k' \<in> fst ` set (lru_data c). k' \<noteq> victim \<longrightarrow>
                          last_use ops victim < last_use ops k')
                    \<and> fst ` set (lru_data c2) = insert k (fst ` set (lru_data c) - {victim})
             else fst ` set (lru_data c2) = insert k (fst ` set (lru_data c))))"
proof -
  from run_inv_run [of ops n clk] obtain c clk' ns where
    r: "lru_run ops (LRUCache_init n) clk = Inr (c, clk')" and ri: "run_inv ops c ns"
    and ms: "max_size c = max 1 n" by blast
  from ri have inv: "lru_inv c ns" and le: "int (length ns) \<le> max_size c"
    by (simp_all add: run_inv_def)
  from lru_inv_length [OF inv] le have 1: "int (length (lru_data c)) \<le> max_size c" by simp
  from lru_inv_dict [OF inv] have 2: "distinct (map fst (lru_data c))" by (rule dict_rel_distinct)
  from r ms 1 2 put_eviction [OF ri] show ?thesis by blast
qed

lemma lru_run_example:
  "\<exists>c. lru_run
       [Put ([''a'', ''''], A, IN)
          \<lparr>ans_qname = [''a'', ''''], ans_rdtype = A, ans_rdclass = IN,
           ans_response = \<lparr>rcode = NOERROR, answer = [], authority = []\<rparr>,
           ans_nameserver = None, ans_port = None, canonical_name = [''a'', ''''],
           rrset = None, expiration = 100\<rparr>,
        Put ([''b'', ''''], A, IN)
          \<lparr>ans_qname = [''b'', ''''], ans_rdtype = A, ans_rdclass = IN,
           ans_response = \<lparr>rcode = NOERROR, answer = [], authority = []\<rparr>,
           ans_nameserver = None, ans_port = None, canonical_name = [''b'', ''''],
           rrset = None, expiration = 100\<rparr>,
        Get ([''a'', ''''], A, IN)]
       (LRUCache_init 2) (frozen_clock 0) = Inr (c, frozen_clock 0)
     \<and> lru_data c = [(([''a'', ''''], A, IN), 1), (([''b'', ''''], A, IN), 2)]
     \<and> max_size c = 2"
  by (simp add: LRUCache_put_def LRUCache_get_def LRUCache_init_def set_max_size_def
      new_node_def evict.simps link_after_def unlink_def del_node_key_def dict_del_def
      time_time_def frozen_clock_def Let_def)

theorem lru_bound_and_eviction_witness:
  "\<exists>c c2. lru_run
       [Put ([''a'', ''''], A, IN)
          \<lparr>ans_qname = [''a'', ''''], ans_rdtype = A, ans_rdclass = IN,
           ans_response = \<lparr>rcode = NOERROR, answer = [], authority = []\<rparr>,
           ans_nameserver = None, ans_port = None, canonical_name = [''a'', ''''],
           rrset = None, expiration = 100\<rparr>,
        Put ([''b'', ''''], A, IN)
          \<lparr>ans_qname = [''b'', ''''], ans_rdtype = A, ans_rdclass = IN,
           ans_response = \<lparr>rcode = NOERROR, answer = [], authority = []\<rparr>,
           ans_nameserver = None, ans_port = None, canonical_name = [''b'', ''''],
           rrset = None, expiration = 100\<rparr>,
        Get ([''a'', ''''], A, IN)]
       (LRUCache_init 2) (frozen_clock 0) = Inr (c, frozen_clock 0)
     \<and> int (length (lru_data c)) \<le> 2
     \<and> LRUCache_put c ([''c'', ''''], A, IN)
          \<lparr>ans_qname = [''c'', ''''], ans_rdtype = A, ans_rdclass = IN,
           ans_response = \<lparr>rcode = NOERROR, answer = [], authority = []\<rparr>,
           ans_nameserver = None, ans_port = None, canonical_name = [''c'', ''''],
           rrset = None, expiration = 100\<rparr> = Inr c2
     \<and> node_key (heap c (prev (heap c (sentinel c)))) = Some ([''b'', ''''], A, IN)
     \<and> fst ` set (lru_data c2) = {([''a'', ''''], A, IN), ([''c'', ''''], A, IN)}"
proof -
  let ?ka = "([''a'', ''''], A, IN)" and ?kb = "([''b'', ''''], A, IN)" and ?kc = "([''c'', ''''], A, IN)"
  let ?v = "\<lambda>q. \<lparr>ans_qname = q, ans_rdtype = A, ans_rdclass = IN,
           ans_response = \<lparr>rcode = NOERROR, answer = [], authority = []\<rparr>,
           ans_nameserver = None, ans_port = None, canonical_name = q,
           rrset = None, expiration = 100\<rparr>"
  let ?ops = "[Put ?ka (?v [''a'', '''']), Put ?kb (?v [''b'', '''']), Get ?ka]"
  from lru_run_example obtain c where
    r: "lru_run ?ops (LRUCache_init 2) (frozen_clock 0) = Inr (c, frozen_clock 0)"
    and d: "lru_data c = [(?ka, 1), (?kb, 2)]" and m: "max_size c = 2"
    by auto
  from lru_bound_and_eviction [of ?ops 2 "frozen_clock 0"] obtain c' clk' where
    r': "lru_run ?ops (LRUCache_init 2) (frozen_clock 0) = Inr (c', clk')"
    and q: "\<forall>k v. \<exists>c2. LRUCache_put c' k v = Inr c2
          \<and> (if map_of (lru_data c') k = None \<and> int (length (lru_data c')) = max_size c'
             then \<exists>victim. node_key (heap c' (prev (heap c' (sentinel c')))) = Some victim
                    \<and> victim \<in> fst ` set (lru_data c')
                    \<and> (\<forall>k' \<in> fst ` set (lru_data c'). k' \<noteq> victim \<longrightarrow>
                          last_use ?ops victim < last_use ?ops k')
                    \<and> fst ` set (lru_data c2) = insert k (fst ` set (lru_data c') - {victim})
             else fst ` set (lru_data c2) = insert k (fst ` set (lru_data c')))"
    by (elim exE conjE)
  from r r' have "c' = c" by simp
  with q obtain c2 where p: "LRUCache_put c ?kc (?v [''c'', '''']) = Inr c2"
    and e: "if map_of (lru_data c) ?kc = None \<and> int (length (lru_data c)) = max_size c
             then \<exists>victim. node_key (heap c (prev (heap c (sentinel c)))) = Some victim
                    \<and> victim \<in> fst ` set (lru_data c)
                    \<and> (\<forall>k' \<in> fst ` set (lru_data c). k' \<noteq> victim \<longrightarrow>
                          last_use ?ops victim < last_use ?ops k')
                    \<and> fst ` set (lru_data c2) = insert ?kc (fst ` set (lru_data c) - {victim})
             else fst ` set (lru_data c2) = insert ?kc (fst ` set (lru_data c))"
    by blast
  from e d m obtain victim where
    v1: "node_key (heap c (prev (heap c (sentinel c)))) = Some victim"
    and v2: "victim = ?ka \<or> victim = ?kb"
    and v3: "\<forall>k' \<in> {?ka, ?kb}. k' \<noteq> victim \<longrightarrow> last_use ?ops victim < last_use ?ops k'"
    and v4: "fst ` set (lru_data c2) = insert ?kc ({?ka, ?kb} - {victim})"
    by auto
  have lu: "last_use ?ops ?ka = 3" "last_use ?ops ?kb = 2" by (simp_all add: last_use_def)
  from v2 v3 lu have "victim = ?kb" by auto
  with v1 v4 have "node_key (heap c (prev (heap c (sentinel c)))) = Some ?kb"
    and "fst ` set (lru_data c2) = {?ka, ?kc}" by auto
  with r p d show ?thesis by auto
qed

end
